theory Spec2Isabelle
  imports Main "HOL-Library.Sublist"
begin

section \<open>Strings of the program\<close>

text \<open>
  A Python \<open>str\<close> is a sequence of Unicode code points. A code point is modelled as a
  natural number (valid ones are below \<open>0x110000\<close>), a string as the list of its code
  points. ASCII literals of the source are written as Isabelle strings and converted
  with \<open>ascii\<close>.
\<close>

type_synonym pystr = "nat list"

definition ascii :: "string \<Rightarrow> pystr" where
  "ascii cs = map of_char cs"

definition BS :: nat where "BS = 92"  \<comment> \<open>the backslash\<close>
definition DQ :: nat where "DQ = 34"  \<comment> \<open>the double quote\<close>
definition NL :: nat where "NL = 10"  \<comment> \<open>the newline\<close>

text \<open>
  \<open>str.isspace\<close> on one code point: the white-space table of CPython
  (\<open>_PyUnicode_IsWhitespace\<close>).
\<close>

definition is_space :: "nat \<Rightarrow> bool" where
  "is_space c \<longleftrightarrow>
     (9 \<le> c \<and> c \<le> 13) \<or> (28 \<le> c \<and> c \<le> 32) \<or> c = 133 \<or> c = 160 \<or> c = 5760 \<or>
     (8192 \<le> c \<and> c \<le> 8202) \<or> c = 8232 \<or> c = 8233 \<or> c = 8239 \<or> c = 8287 \<or>
     c = 12288"

text \<open>\<open>s.strip()\<close>: white space removed at both ends.\<close>

definition strip :: "pystr \<Rightarrow> pystr" where
  "strip s = rev (dropWhile is_space (rev (dropWhile is_space s)))"

text \<open>\<open>marker in s\<close>: the marker occurs as a contiguous run somewhere in \<open>s\<close>.\<close>

fun str_contains :: "pystr \<Rightarrow> pystr \<Rightarrow> bool" where
  "str_contains pat [] = (pat = [])"
| "str_contains pat (x # xs) = (prefix pat (x # xs) \<or> str_contains pat xs)"

section \<open>The normalizer\<close>

definition markers :: "pystr list" where
  "markers = [[BS, 40], [BS, 41], [36, 36], [BS, 91], [BS, 93]]"

definition normalize_latex :: "pystr \<Rightarrow> pystr" where
  "normalize_latex source =
     (let stripped = strip source in
      if stripped = [] then []
      else if list_ex (\<lambda>marker. str_contains marker stripped) markers then stripped
      else [36, 36, NL] @ stripped @ [NL, 36, 36])"

section \<open>The page builder\<close>

text \<open>
  \<open>s.replace(old, new)\<close>: every occurrence of \<open>old\<close> is replaced, scanning from the
  left and continuing after each match; an empty \<open>old\<close> matches before every character
  and at the end.
\<close>

fun str_replace :: "pystr \<Rightarrow> pystr \<Rightarrow> pystr \<Rightarrow> pystr" where
  "str_replace old new [] = (if old = [] then new else [])"
| "str_replace old new (x # xs) =
     (if old = [] then new @ x # str_replace old new xs
      else if prefix old (x # xs) then new @ str_replace old new (drop (length old - 1) xs)
      else x # str_replace old new xs)"

text \<open>
  \<open>json.dumps\<close> on a \<open>str\<close> (the default \<open>ensure_ascii=True\<close>), after
  \<open>py_encode_basestring_ascii\<close> of CPython's \<open>json.encoder\<close>: printable ASCII other than
  the backslash and the double quote stays, the short escapes of \<open>ESCAPE_DCT\<close> apply, any
  other code point below \<open>0x10000\<close> is written with four lower-case hexadecimal digits,
  and a code point from \<open>0x10000\<close> on as a surrogate pair. The library's
  \<open>0xd800 | ((n >> 10) & 0x3ff)\<close> and \<open>0xdc00 | (n & 0x3ff)\<close> are written with
  \<open>div\<close>, \<open>mod\<close> and \<open>+\<close>, and \<open>'{0:04x}'.format\<close> with its four digits, which is
  what they are on the code points of a \<open>str\<close>.
\<close>

definition hexdigit :: "nat \<Rightarrow> nat" where
  "hexdigit d = (if d < 10 then 48 + d else 87 + d)"

definition hex4 :: "nat \<Rightarrow> pystr" where
  "hex4 n = [hexdigit (n div 4096 mod 16), hexdigit (n div 256 mod 16),
             hexdigit (n div 16 mod 16), hexdigit (n mod 16)]"

definition escape_char :: "nat \<Rightarrow> pystr" where
  "escape_char c =
     (if c = BS then [BS, BS]
      else if c = DQ then [BS, DQ]
      else if 32 \<le> c \<and> c \<le> 126 then [c]
      else if c = 8 then [BS, 98]
      else if c = 12 then [BS, 102]
      else if c = 10 then [BS, 110]
      else if c = 13 then [BS, 114]
      else if c = 9 then [BS, 116]
      else if c < 65536 then [BS, 117] @ hex4 c
      else (let n = c - 65536;
                s1 = 55296 + n div 1024 mod 1024;
                s2 = 56320 + n mod 1024
            in [BS, 117] @ hex4 s1 @ [BS, 117] @ hex4 s2))"

definition json_dumps :: "pystr \<Rightarrow> pystr" where
  "json_dumps s = DQ # concat (map escape_char s) @ [DQ]"

definition default_sample :: pystr where
  "default_sample =
     ascii ''E = mc^2'' @ [NL] @
     [BS] @ ascii ''int_0^{'' @ [BS] @ ascii ''infty} e^{-x^2}'' @ [BS] @ ascii '',dx = '' @
     [BS] @ ascii ''frac{'' @ [BS] @ ascii ''sqrt{'' @ [BS] @ ascii ''pi}}{2}'' @ [NL] @
     [BS] @ ascii ''textbf{'' @ [1052, 1072, 1090, 1088, 1080, 1094, 1072] @ ascii '': }'' @
     [BS] @ ascii ''begin{bmatrix}1 & 0 '' @ [BS] @ ascii '' 0 & 1'' @
     [BS] @ ascii ''end{bmatrix}''"

definition PRELOAD :: pystr where
  "PRELOAD = ascii ''__PRELOAD__''"

definition SAMPLE :: pystr where
  "SAMPLE = ascii ''__SAMPLE__''"

text \<open>
  The value \<open>build_page\<close> returns, as a function of the markup and of the text read from
  the template file.
\<close>

definition build_page_text :: "pystr \<Rightarrow> pystr \<Rightarrow> pystr" where
  "build_page_text latex template =
     str_replace SAMPLE (json_dumps default_sample)
       (str_replace PRELOAD (json_dumps latex) template)"

text \<open>The number of positions of \<open>s\<close> at which \<open>pat\<close> occurs.\<close>

fun count_occ :: "pystr \<Rightarrow> pystr \<Rightarrow> nat" where
  "count_occ pat [] = (if pat = [] then 1 else 0)"
| "count_occ pat (x # xs) = (if prefix pat (x # xs) then 1 else 0) + count_occ pat xs"

section \<open>Decoding a JSON string\<close>

text \<open>
  The reader of a JSON string, after \<open>py_scanstring\<close> of CPython's \<open>json.decoder\<close> (strict
  mode): the input is the text after the opening quote, the result is the decoded string
  and the text after the closing quote. A \<open>\u\<close> escape takes four hexadecimal digits; a
  high surrogate followed by an escaped low surrogate is joined into one code point.
  The compiled scanner of CPython accepts the same strings with the same results; on a
  malformed string it may name another error than this one (a string that ends right
  after a \<open>\u\<close> escape is \<open>Unterminated\<close> here and an invalid escape there).
\<close>

datatype json_error = Unterminated | InvalidControl | InvalidEscape | ExpectingString | ExtraData

definition unhex :: "nat \<Rightarrow> nat option" where
  "unhex d =
     (if 48 \<le> d \<and> d \<le> 57 then Some (d - 48)
      else if 97 \<le> d \<and> d \<le> 102 then Some (d - 87)
      else if 65 \<le> d \<and> d \<le> 70 then Some (d - 55)
      else None)"

definition decode_uXXXX :: "pystr \<Rightarrow> nat option" where
  "decode_uXXXX esc =
     (case esc of
        [a, b, c, d] \<Rightarrow>
          (case (unhex a, unhex b, unhex c, unhex d) of
             (Some x, Some y, Some z, Some w) \<Rightarrow> Some (((x * 16 + y) * 16 + z) * 16 + w)
           | _ \<Rightarrow> None)
      | _ \<Rightarrow> None)"

definition BACKSLASH :: "nat \<Rightarrow> nat option" where
  "BACKSLASH esc =
     (if esc = 34 then Some 34
      else if esc = 92 then Some 92
      else if esc = 47 then Some 47
      else if esc = 98 then Some 8
      else if esc = 102 then Some 12
      else if esc = 110 then Some 10
      else if esc = 114 then Some 13
      else if esc = 116 then Some 9
      else None)"

definition append_char :: "nat \<Rightarrow> json_error + pystr \<times> pystr \<Rightarrow> json_error + pystr \<times> pystr" where
  "append_char c r = (case r of Inl e \<Rightarrow> Inl e | Inr (chunks, rest) \<Rightarrow> Inr (c # chunks, rest))"

function scanstring :: "pystr \<Rightarrow> json_error + pystr \<times> pystr" where
  "scanstring [] = Inl Unterminated"
| "scanstring (c # cs) =
     (if c = DQ then Inr ([], cs)
      else if c < 32 then Inl InvalidControl
      else if c \<noteq> BS then append_char c (scanstring cs)
      else
        (case cs of
           [] \<Rightarrow> Inl Unterminated
         | esc # r \<Rightarrow>
             if esc \<noteq> 117 then
               (case BACKSLASH esc of
                  None \<Rightarrow> Inl InvalidEscape
                | Some ch \<Rightarrow> append_char ch (scanstring r))
             else
               (case decode_uXXXX (take 4 r) of
                  None \<Rightarrow> Inl InvalidEscape
                | Some uni \<Rightarrow>
                    if 55296 \<le> uni \<and> uni \<le> 56319 \<and> take 2 (drop 4 r) = [BS, 117] then
                      (case decode_uXXXX (take 4 (drop 6 r)) of
                         None \<Rightarrow> Inl InvalidEscape
                       | Some uni2 \<Rightarrow>
                           if 56320 \<le> uni2 \<and> uni2 \<le> 57343
                           then append_char (65536 + ((uni - 55296) * 1024 + (uni2 - 56320)))
                                  (scanstring (drop 10 r))
                           else append_char uni (scanstring (drop 4 r)))
                    else append_char uni (scanstring (drop 4 r)))))"
  by pat_completeness auto
termination
  by (relation "measure length") auto

definition is_json_ws :: "nat \<Rightarrow> bool" where
  "is_json_ws c \<longleftrightarrow> c = 32 \<or> c = 9 \<or> c = 10 \<or> c = 13"

text \<open>\<open>json.loads\<close> on a document that is one JSON string.\<close>

definition json_loads :: "pystr \<Rightarrow> json_error + pystr" where
  "json_loads doc =
     (case dropWhile is_json_ws doc of
        [] \<Rightarrow> Inl ExpectingString
      | c # cs \<Rightarrow>
          if c \<noteq> DQ then Inl ExpectingString
          else (case scanstring cs of
                  Inl e \<Rightarrow> Inl e
                | Inr (v, rest) \<Rightarrow> if dropWhile is_json_ws rest = [] then Inr v else Inl ExtraData))"

text \<open>
  The strings on which encoding and decoding are inverse: every code point is one a
  \<open>str\<close> can hold, and no high surrogate stands directly before a low surrogate (the
  reader would join the two).
\<close>

definition high_surrogate :: "nat \<Rightarrow> bool" where
  "high_surrogate c \<longleftrightarrow> 55296 \<le> c \<and> c \<le> 56319"

definition low_surrogate :: "nat \<Rightarrow> bool" where
  "low_surrogate c \<longleftrightarrow> 56320 \<le> c \<and> c \<le> 57343"

fun no_surrogate_pair :: "pystr \<Rightarrow> bool" where
  "no_surrogate_pair (c # d # cs) \<longleftrightarrow>
     (if high_surrogate c \<and> low_surrogate d then False else no_surrogate_pair (d # cs))"
| "no_surrogate_pair [c] \<longleftrightarrow> True"
| "no_surrogate_pair [] \<longleftrightarrow> True"

definition code_points :: "pystr \<Rightarrow> bool" where
  "code_points s \<longleftrightarrow> list_all (\<lambda>c. c < 1114112) s"

text \<open>
  What the reader needs of the text after an escaped high surrogate, to leave it alone:
  no \<open>\u\<close> escape follows, or the one that follows is not a low surrogate.
\<close>

definition next_ok :: "pystr \<Rightarrow> bool" where
  "next_ok r \<longleftrightarrow> take 2 r \<noteq> [BS, 117] \<or>
     (\<exists>u. decode_uXXXX (take 4 (drop 2 r)) = Some u \<and> \<not> low_surrogate u)"

section \<open>Files, standard input and the viewer\<close>

text \<open>
  A path is modelled by the text \<open>str(path)\<close> gives. The calls into the operating system
  are answered by a \<open>world\<close>; what the program does to it is kept as a trace of effects.
  An exception is a value; its text is what \<open>str(exc)\<close> gives. Every call can raise:
  \<^item> \<open>Path.is_file\<close> answers \<open>True\<close> or \<open>False\<close>, or re-raises the \<open>OSError\<close> of the
    underlying \<open>stat\<close> when it is not one of the errors it takes for an absent file (a
    name that is too long, a directory that may not be searched);
  \<^item> \<open>webbrowser.open(path.as_uri())\<close> answers \<open>True\<close> when a browser was launched and
    \<open>False\<close> when none was, or raises; \<open>write_and_open\<close> does not look at the answer
    and does not catch the exception.
\<close>

datatype path = Path pystr

fun path_str :: "path \<Rightarrow> pystr" where
  "path_str (Path s) = s"

datatype exn = FileNotFoundError pystr | OSError pystr | OtherException pystr

fun exn_str :: "exn \<Rightarrow> pystr" where
  "exn_str (FileNotFoundError msg) = msg"
| "exn_str (OSError msg) = msg"
| "exn_str (OtherException msg) = msg"

record args =
  arg_file :: "path option"
  arg_text :: "pystr option"
  arg_open :: bool

record world =
  is_file :: "path \<Rightarrow> exn + bool"
  read_text :: "path \<Rightarrow> exn + pystr"
  stdin_read :: "exn + pystr"
  template_path :: path
  named_temporary_file :: "exn + path"
  write_text :: "path \<Rightarrow> pystr \<Rightarrow> exn option"
  webbrowser_open :: "path \<Rightarrow> exn + bool"

datatype effect =
    IsFile path
  | ReadText path
  | StdinRead
  | NamedTemporaryFile
  | WriteText path pystr
  | WebbrowserOpen path
  | PrintStdout pystr
  | PrintStderr pystr

definition read_stdin :: "world \<Rightarrow> effect list \<times> (exn + pystr)" where
  "read_stdin w =
     ([StdinRead],
      case stdin_read w of
        Inl e \<Rightarrow> Inl e
      | Inr data \<Rightarrow> if strip data = [] then Inr [] else Inr data)"

definition load_latex :: "world \<Rightarrow> args \<Rightarrow> effect list \<times> (exn + pystr)" where
  "load_latex w a =
     (case arg_file a of
        Some f \<Rightarrow>
          (case is_file w f of
             Inl e \<Rightarrow> ([IsFile f], Inl e)
           | Inr found \<Rightarrow>
               if \<not> found
               then ([IsFile f], Inl (FileNotFoundError (ascii ''No such file: '' @ path_str f)))
               else ([IsFile f, ReadText f], read_text w f))
      | None \<Rightarrow>
          (case arg_text a of
             Some t \<Rightarrow> if t \<noteq> [] then ([], Inr t) else read_stdin w
           | None \<Rightarrow> read_stdin w))"

definition build_page :: "world \<Rightarrow> pystr \<Rightarrow> path \<Rightarrow> effect list \<times> (exn + pystr)" where
  "build_page w latex tp =
     ([ReadText tp],
      case read_text w tp of
        Inl e \<Rightarrow> Inl e
      | Inr template \<Rightarrow> Inr (build_page_text latex template))"

definition write_and_open :: "world \<Rightarrow> pystr \<Rightarrow> bool \<Rightarrow> effect list \<times> (exn + path)" where
  "write_and_open w html should_open =
     (case named_temporary_file w of
        Inl e \<Rightarrow> ([NamedTemporaryFile], Inl e)
      | Inr p \<Rightarrow>
          (case write_text w p html of
             Some e \<Rightarrow> ([NamedTemporaryFile, WriteText p html], Inl e)
           | None \<Rightarrow>
               if should_open
               then (case webbrowser_open w p of
                       Inl e \<Rightarrow> ([NamedTemporaryFile, WriteText p html, WebbrowserOpen p], Inl e)
                     | Inr launched \<Rightarrow>
                         ([NamedTemporaryFile, WriteText p html, WebbrowserOpen p], Inr p))
               else ([NamedTemporaryFile, WriteText p html], Inr p)))"

text \<open>
  \<open>main\<close> after \<open>parse_args\<close>: the trace of the run and the exit status of the process.
  The handler of \<open>main\<close> prints the exception to standard error and exits with status 1.
\<close>

definition handler :: "effect list \<Rightarrow> exn \<Rightarrow> effect list \<times> nat" where
  "handler tr exc = (tr @ [PrintStderr (ascii ''Error: '' @ exn_str exc)], 1)"

definition main :: "world \<Rightarrow> args \<Rightarrow> effect list \<times> nat" where
  "main w a =
     (case load_latex w a of
        (t1, Inl exc) \<Rightarrow> handler t1 exc
      | (t1, Inr raw_latex) \<Rightarrow>
          (let normalized = normalize_latex raw_latex;
               tp = template_path w
           in case is_file w tp of
                Inl exc \<Rightarrow> handler (t1 @ [IsFile tp]) exc
              | Inr found \<Rightarrow>
                  if \<not> found
                  then handler (t1 @ [IsFile tp])
                         (FileNotFoundError (ascii ''Template not found: '' @ path_str tp))
                  else
                    (case build_page w normalized tp of
                       (t2, Inl exc) \<Rightarrow> handler (t1 @ [IsFile tp] @ t2) exc
                     | (t2, Inr html) \<Rightarrow>
                         (case write_and_open w html (arg_open a) of
                            (t3, Inl exc) \<Rightarrow> handler (t1 @ [IsFile tp] @ t2 @ t3) exc
                          | (t3, Inr p) \<Rightarrow>
                              (t1 @ [IsFile tp] @ t2 @ t3 @
                                 [PrintStdout (ascii ''Preview written to '' @ path_str p)], 0)))))"

section \<open>Properties of the normalizer\<close>

lemma str_contains_sublist: "str_contains pat s \<longleftrightarrow> sublist pat s"
  by (induction s) (simp_all add: sublist_Cons_right)

lemma str_contains_iff: "str_contains pat s \<longleftrightarrow> (\<exists>p q. s = p @ pat @ q)"
  by (simp add: str_contains_sublist sublist_def)

lemma last_dropWhile_eq: "dropWhile P xs \<noteq> [] \<Longrightarrow> last (dropWhile P xs) = last xs"
proof -
  assume ne: "dropWhile P xs \<noteq> []"
  have "last xs = last (takeWhile P xs @ dropWhile P xs)" by simp
  also have "\<dots> = last (dropWhile P xs)" using ne by (rule last_appendR)
  finally show ?thesis by simp
qed

lemma strip_Nil: "strip [] = []"
  by (simp add: strip_def)

lemma strip_last: "strip s \<noteq> [] \<Longrightarrow> \<not> is_space (last (strip s))"
proof -
  assume ne: "strip s \<noteq> []"
  let ?e = "dropWhile is_space (rev (dropWhile is_space s))"
  from ne have e: "?e \<noteq> []" by (simp add: strip_def)
  then have "\<not> is_space (hd ?e)" by (rule hd_dropWhile)
  moreover have "last (strip s) = hd ?e" using e by (simp add: strip_def last_rev)
  ultimately show ?thesis by simp
qed

lemma strip_hd: "strip s \<noteq> [] \<Longrightarrow> \<not> is_space (hd (strip s))"
proof -
  assume ne: "strip s \<noteq> []"
  let ?d = "dropWhile is_space s"
  let ?e = "dropWhile is_space (rev ?d)"
  from ne have e: "?e \<noteq> []" by (simp add: strip_def)
  have d: "?d \<noteq> []"
  proof
    assume "?d = []"
    with e show False by (simp only: rev.simps dropWhile.simps not_False_eq_True simp_thms)
  qed
  have "hd (strip s) = last ?e" using e by (simp add: strip_def hd_rev)
  also have "\<dots> = last (rev ?d)" using e by (rule last_dropWhile_eq)
  also have "\<dots> = hd ?d" using d by (simp add: last_rev)
  finally have "hd (strip s) = hd ?d" .
  moreover have "\<not> is_space (hd ?d)" using d by (rule hd_dropWhile)
  ultimately show ?thesis by simp
qed

lemma strip_id: "s \<noteq> [] \<Longrightarrow> \<not> is_space (hd s) \<Longrightarrow> \<not> is_space (last s) \<Longrightarrow> strip s = s"
proof -
  assume ne: "s \<noteq> []" and h: "\<not> is_space (hd s)" and l: "\<not> is_space (last s)"
  from ne h have d: "dropWhile is_space s = s" by (cases s) simp_all
  from ne l have "dropWhile is_space (rev s) = rev s" by (cases "rev s") (simp_all add: last_rev)
  with d show ?thesis by (simp add: strip_def)
qed

lemma strip_idem: "strip (strip s) = strip s"
proof (cases "strip s = []")
  case True
  then show ?thesis by (simp add: strip_Nil)
next
  case False
  then show ?thesis by (intro strip_id strip_hd strip_last)
qed

lemma strip_decomp:
  "\<exists>l r. s = l @ strip s @ r \<and> list_all is_space l \<and> list_all is_space r"
proof -
  let ?d = "dropWhile is_space s"
  have s: "s = takeWhile is_space s @ ?d" by simp
  have "rev (takeWhile is_space (rev ?d) @ dropWhile is_space (rev ?d)) = ?d"
    by (simp only: takeWhile_dropWhile_id rev_rev_ident)
  then have "rev (dropWhile is_space (rev ?d)) @ rev (takeWhile is_space (rev ?d)) = ?d"
    by (simp only: rev_append)
  then have d: "?d = strip s @ rev (takeWhile is_space (rev ?d))"
    by (simp only: strip_def)
  have l: "list_all is_space (takeWhile is_space s)"
    by (auto simp: list_all_iff dest: set_takeWhileD)
  have r: "list_all is_space (rev (takeWhile is_space (rev ?d)))"
    by (auto simp: list_all_iff dest: set_takeWhileD)
  from s d have "s = takeWhile is_space s @ strip s @ rev (takeWhile is_space (rev ?d))"
    by metis
  with l r show ?thesis by blast
qed

lemma not_space_dollar: "\<not> is_space 36"
  by (simp add: is_space_def)

lemma strip_wrapped: "strip ([36, 36, NL] @ t @ [NL, 36, 36]) = [36, 36, NL] @ t @ [NL, 36, 36]"
  by (rule strip_id) (simp_all add: not_space_dollar)

lemma contains_wrapped: "str_contains [36, 36] ([36, 36, NL] @ t @ [NL, 36, 36])"
  by simp

lemma normalize_cases:
  "normalize_latex s = [] \<and> strip s = []
   \<or> normalize_latex s = strip s \<and> strip s \<noteq> [] \<and> list_ex (\<lambda>m. str_contains m (strip s)) markers
   \<or> normalize_latex s = [36, 36, NL] @ strip s @ [NL, 36, 36] \<and> strip s \<noteq> []
       \<and> \<not> list_ex (\<lambda>m. str_contains m (strip s)) markers"
  by (simp add: normalize_latex_def Let_def)

lemma markers_wrapped: "list_ex (\<lambda>m. str_contains m ([36, 36, NL] @ t @ [NL, 36, 36])) markers"
  by (simp add: markers_def)

text \<open>
  Claim C2. Normalization is idempotent: normalizing the result of \<open>normalize_latex\<close> once
  more returns that result, for every string.
\<close>

theorem normalize_latex_idempotent: "normalize_latex (normalize_latex s) = normalize_latex s"
  using normalize_cases [of s]
  by (auto simp: normalize_latex_def Let_def strip_Nil strip_idem strip_wrapped markers_wrapped
      simp del: append.simps str_contains.simps)

theorem normalize_latex_idempotent_witness:
  "normalize_latex (normalize_latex [32, 120, 94, 50, 10]) = normalize_latex [32, 120, 94, 50, 10]"
  using normalize_latex_idempotent [of "[32, 120, 94, 50, 10]"] .

text \<open>
  Claim C9. The result of \<open>normalize_latex\<close> has no white space at either end: \<open>strip\<close>
  returns it unchanged, for every string.
\<close>

theorem normalize_latex_stripped: "strip (normalize_latex s) = normalize_latex s"
  using normalize_cases [of s]
  by (auto simp: strip_Nil strip_idem strip_wrapped simp del: append.simps)

theorem normalize_latex_stripped_witness:
  "strip (normalize_latex [32, 92, 40, 120, 92, 41, 10]) = normalize_latex [32, 92, 40, 120, 92, 41, 10]"
  using normalize_latex_stripped [of "[32, 92, 40, 120, 92, 41, 10]"] .

text \<open>
  Claim C1. For every string \<open>s\<close>, \<open>normalize_latex\<close> follows the three steps: the text is
  trimmed (\<open>strip s\<close> is \<open>s\<close> without a run of white space at each end, and has no white
  space at either end); an empty trimmed text gives the empty string; a trimmed text in
  which one of the five tokens backslash-parenthesis (open or close), backslash-bracket
  (open or close) or double dollar occurs anywhere is returned unchanged, whether or not
  the token is matched by another; any other trimmed text is returned between two double
  dollars, each on a line of its own.
\<close>

theorem normalize_latex_algorithm:
  "(\<exists>l r. s = l @ strip s @ r \<and> list_all is_space l \<and> list_all is_space r) \<and>
   (strip s \<noteq> [] \<longrightarrow> \<not> is_space (hd (strip s)) \<and> \<not> is_space (last (strip s))) \<and>
   normalize_latex s =
     (if strip s = [] then []
      else if \<exists>tok \<in> {[BS, 40], [BS, 41], [BS, 91], [BS, 93], [36, 36]}.
                \<exists>p q. strip s = p @ tok @ q
           then strip s
           else [36, 36, NL] @ strip s @ [NL, 36, 36])"
proof -
  have "list_ex (\<lambda>m. str_contains m (strip s)) markers \<longleftrightarrow>
        (\<exists>tok \<in> {[BS, 40], [BS, 41], [BS, 91], [BS, 93], [36, 36]}. \<exists>p q. strip s = p @ tok @ q)"
    by (simp add: markers_def list_ex_iff str_contains_iff) blast
  then have "normalize_latex s =
     (if strip s = [] then []
      else if \<exists>tok \<in> {[BS, 40], [BS, 41], [BS, 91], [BS, 93], [36, 36]}.
                \<exists>p q. strip s = p @ tok @ q
           then strip s
           else [36, 36, NL] @ strip s @ [NL, 36, 36])"
    by (simp add: normalize_latex_def Let_def)
  with strip_decomp [of s] strip_hd [of s] strip_last [of s] show ?thesis by blast
qed

theorem normalize_latex_algorithm_witness:
  "normalize_latex [32, 120, 94, 50, 10] = [36, 36, 10, 120, 94, 50, 10, 36, 36] \<and>
   normalize_latex [32, 120, 92, 41] = [120, 92, 41] \<and>
   normalize_latex [32, 9] = []"
proof -
  have s1: "strip [32, 120, 94, 50, 10] = [120, 94, 50]"
    and s2: "strip [32, 120, 92, 41] = [120, 92, 41]"
    and s3: "strip [32, 9] = []"
    by (simp_all add: strip_def is_space_def)
  have n1: "\<not> (\<exists>tok \<in> {[BS, 40], [BS, 41], [BS, 91], [BS, 93], [36, 36]}.
                \<exists>p q. [120, 94, 50] = p @ tok @ q)"
    by (simp add: str_contains_iff [symmetric] BS_def)
  have n2: "\<exists>tok \<in> {[BS, 40], [BS, 41], [BS, 91], [BS, 93], [36, 36]}.
                \<exists>p q. [120, 92, 41] = p @ tok @ q"
    by (simp add: str_contains_iff [symmetric] BS_def)
  from normalize_latex_algorithm [of "[32, 120, 94, 50, 10]"] n1
  have "normalize_latex [32, 120, 94, 50, 10] = [36, 36, NL] @ [120, 94, 50] @ [NL, 36, 36]"
    unfolding s1 by (simp only: if_False list.simps simp_thms)
  moreover from normalize_latex_algorithm [of "[32, 120, 92, 41]"] n2
  have "normalize_latex [32, 120, 92, 41] = [120, 92, 41]"
    unfolding s2 by (simp only: if_True if_False list.simps simp_thms)
  moreover from normalize_latex_algorithm [of "[32, 9]"]
  have "normalize_latex [32, 9] = []"
    unfolding s3 by (simp only: if_True simp_thms)
  ultimately show ?thesis by (simp add: NL_def)
qed

section \<open>Occurrences and replacement\<close>

lemma prefix_split_char: "q \<notin> set pat \<Longrightarrow> prefix pat (w @ q # v) \<longleftrightarrow> prefix pat w"
  by (auto simp: prefix_append prefix_Cons)

lemma contains_split_char:
  "q \<notin> set pat \<Longrightarrow> str_contains pat (u @ q # v) \<longleftrightarrow> str_contains pat u \<or> str_contains pat v"
proof (induction u)
  case Nil
  then show ?case by (cases pat) auto
next
  case (Cons x u)
  from Cons.prems have "prefix pat ((x # u) @ q # v) \<longleftrightarrow> prefix pat (x # u)"
    by (rule prefix_split_char)
  with Cons show ?case by auto
qed

lemma contains_Nil_pat: "str_contains [] s"
  by (cases s) simp_all

lemma contains_appendI1: "str_contains pat u \<Longrightarrow> str_contains pat (u @ v)"
  unfolding str_contains_sublist by (metis sublist_append)

lemma contains_appendI2: "str_contains pat v \<Longrightarrow> str_contains pat (u @ v)"
  unfolding str_contains_sublist by (metis sublist_append)

lemma contains_too_short: "length s < length pat \<Longrightarrow> \<not> str_contains pat s"
  unfolding str_contains_sublist using sublist_length_le by fastforce

lemma replace_noop: "\<not> str_contains old s \<Longrightarrow> str_replace old new s = s"
proof (induction s)
  case Nil
  then show ?case by auto
next
  case (Cons x s)
  then have "old \<noteq> []" by auto
  with Cons show ?case by auto
qed

lemma prefix_shorter:
  assumes "prefix pat (a @ pat @ b)" and "a \<noteq> []" and "pat \<noteq> []"
  shows "prefix pat (a @ butlast pat)"
proof -
  have "pat = butlast pat @ [last pat]" using assms(3) by simp
  then have "a @ pat @ b = (a @ butlast pat) @ (last pat # b)" by (metis append.assoc append_Cons append_Nil)
  then have "prefix (a @ butlast pat) (a @ pat @ b)" by (metis prefixI)
  moreover have "length pat \<le> length (a @ butlast pat)" using assms(2) by (cases a) simp_all
  ultimately show ?thesis using assms(1) by (metis prefix_length_prefix)
qed

lemma replace_first:
  assumes "old \<noteq> []"
  shows "\<not> str_contains old (a @ butlast old) \<Longrightarrow>
         str_replace old new (a @ old @ b) = a @ new @ str_replace old new b"
proof (induction a)
  case Nil
  from assms obtain o1 os where o: "old = o1 # os" by (cases old) auto
  then show ?case by simp
next
  case (Cons x a)
  from Cons.prems have np: "\<not> prefix old (x # a @ butlast old)"
    and nc: "\<not> str_contains old (a @ butlast old)" by auto
  have "\<not> prefix old ((x # a) @ old @ b)"
    using np prefix_shorter [of old "x # a" b] assms by auto
  with assms Cons.IH [OF nc] show ?case by simp
qed

lemma replace_split_char:
  "q \<notin> set old \<Longrightarrow> old \<noteq> [] \<Longrightarrow>
   str_replace old new (a @ q # b) = str_replace old new a @ q # str_replace old new b"
proof (induction old new a rule: str_replace.induct)
  case (1 old new)
  then obtain o1 os where o: "old = o1 # os" by (cases old) auto
  with 1 show ?case by auto
next
  case (2 old new x xs)
  show ?case
  proof (cases "prefix old (x # xs)")
    case True
    then have le: "length old \<le> Suc (length xs)" using prefix_length_le by fastforce
    from True have p: "prefix old (x # xs @ q # b)" by (metis append_Cons prefix_prefix)
    from le have "drop (length old - 1) (xs @ q # b) = drop (length old - 1) xs @ q # b" by simp
    with 2(2) [OF 2(5) True 2(4) 2(5)] 2(5) True p show ?thesis by simp
  next
    case False
    with prefix_split_char [OF 2(4), of "x # xs" b]
    have "\<not> prefix old ((x # xs) @ q # b)" by blast
    with 2(3) [OF 2(5) False 2(4) 2(5)] 2(5) False show ?thesis by simp
  qed
qed

lemma contains_quoted:
  assumes "q \<notin> set pat"
  shows "str_contains pat (a @ (q # body @ [q]) @ r) \<longleftrightarrow>
         str_contains pat a \<or> str_contains pat body \<or> str_contains pat r"
  using contains_split_char [OF assms, of a "body @ q # r"] contains_split_char [OF assms, of body r]
  by simp

lemma first_occurrence:
  assumes "old \<noteq> []"
  shows "str_contains old t \<Longrightarrow> \<exists>a b. t = a @ old @ b \<and> \<not> str_contains old (a @ butlast old)"
proof (induction t)
  case Nil
  with assms show ?case by simp
next
  case (Cons x t)
  show ?case
  proof (cases "prefix old (x # t)")
    case True
    then obtain b where "x # t = [] @ old @ b" by (auto simp: prefix_def)
    moreover have "\<not> str_contains old ([] @ butlast old)"
      using assms by (simp add: contains_too_short)
    ultimately show ?thesis by blast
  next
    case False
    with Cons.prems have "str_contains old t" by simp
    from Cons.IH [OF this] obtain a b where t: "t = a @ old @ b"
      and n: "\<not> str_contains old (a @ butlast old)" by blast
    have "\<not> prefix old (x # a @ butlast old)"
    proof
      assume "prefix old (x # a @ butlast old)"
      moreover have "prefix (x # a @ butlast old) (x # t)"
        using assms t by (metis Cons_prefix_Cons append.assoc append_butlast_last_id prefixI same_prefix_prefix)
      ultimately have "prefix old (x # t)" by (rule prefix_order.trans)
      with False show False ..
    qed
    with n have "\<not> str_contains old ((x # a) @ butlast old)" by simp
    moreover have "x # t = (x # a) @ old @ b" using t by simp
    ultimately show ?thesis by blast
  qed
qed

lemma contains_new_after_replace:
  assumes "old \<noteq> []" and "str_contains old s"
  shows "str_contains new (str_replace old new s)"
proof -
  from first_occurrence [OF assms] obtain a b where s: "s = a @ old @ b"
    and n: "\<not> str_contains old (a @ butlast old)" by blast
  have "str_replace old new s = a @ new @ str_replace old new b"
    unfolding s using assms(1) n by (rule replace_first)
  then show ?thesis by (simp add: str_contains_sublist)
qed

lemma no_old_after_replace:
  assumes "q \<notin> set old" and "\<not> str_contains old body" and "old \<noteq> []"
  shows "\<not> str_contains old (str_replace old (q # body @ [q]) s)"
proof (induction s rule: length_induct)
  case (1 s)
  show ?case
  proof (cases "str_contains old s")
    case False
    then show ?thesis by (simp add: replace_noop)
  next
    case True
    from first_occurrence [OF assms(3) True] obtain a b where s: "s = a @ old @ b"
      and n: "\<not> str_contains old (a @ butlast old)" by blast
    let ?R = "str_replace old (q # body @ [q]) b"
    have r: "str_replace old (q # body @ [q]) s = a @ (q # body @ [q]) @ ?R"
      unfolding s using assms(3) n by (rule replace_first)
    have "length b < length s" using s assms(3) by simp
    with 1 have ih: "\<not> str_contains old ?R" by blast
    have na: "\<not> str_contains old a" using n contains_appendI1 by blast
    have "str_contains old (a @ (q # body @ [q]) @ ?R) \<longleftrightarrow>
               str_contains old a \<or> str_contains old body \<or> str_contains old ?R"
      using assms(1) by (rule contains_quoted)
    with na assms(2) ih show ?thesis unfolding r by blast
  qed
qed

lemma contains_after_replace:
  assumes "q \<notin> set pat" and "old \<noteq> []"
  shows "str_contains pat (str_replace old (q # body @ [q]) t) \<Longrightarrow>
         str_contains pat t \<or> str_contains pat body"
proof (induction t rule: length_induct)
  case (1 t)
  show ?case
  proof (cases "str_contains old t")
    case False
    with 1(2) show ?thesis by (simp add: replace_noop)
  next
    case True
    from first_occurrence [OF assms(2) True] obtain a b where t: "t = a @ old @ b"
      and n: "\<not> str_contains old (a @ butlast old)" by blast
    let ?R = "str_replace old (q # body @ [q]) b"
    have r: "str_replace old (q # body @ [q]) t = a @ (q # body @ [q]) @ ?R"
      unfolding t using assms(2) n by (rule replace_first)
    have "length b < length t" using t assms(2) by simp
    with 1(1) have ih: "str_contains pat ?R \<Longrightarrow> str_contains pat b \<or> str_contains pat body"
      by blast
    have "str_contains pat (a @ (q # body @ [q]) @ ?R) \<longleftrightarrow>
               str_contains pat a \<or> str_contains pat body \<or> str_contains pat ?R"
      using assms(1) by (rule contains_quoted)
    with 1(2) have "str_contains pat a \<or> str_contains pat body \<or> str_contains pat ?R"
      unfolding r by blast
    moreover have "str_contains pat a \<Longrightarrow> str_contains pat t"
      unfolding t by (rule contains_appendI1)
    moreover have "str_contains pat b \<Longrightarrow> str_contains pat t"
      unfolding t by (intro contains_appendI2)
    ultimately show ?thesis using ih by blast
  qed
qed

lemma count_zero: "\<not> str_contains pat s \<Longrightarrow> count_occ pat s = 0"
  by (induction s) auto

lemma count_once:
  assumes "pat \<noteq> []"
  shows "\<not> str_contains pat (a @ butlast pat) \<Longrightarrow> \<not> str_contains pat (tl pat @ b) \<Longrightarrow>
         count_occ pat (a @ pat @ b) = 1"
proof (induction a)
  case Nil
  from assms obtain p ps where p: "pat = p # ps" by (cases pat) auto
  with Nil(2) show ?case by (simp add: count_zero)
next
  case (Cons x a)
  from Cons.prems have np: "\<not> prefix pat (x # a @ butlast pat)"
    and nc: "\<not> str_contains pat (a @ butlast pat)" by auto
  have "\<not> prefix pat ((x # a) @ pat @ b)"
    using np prefix_shorter [of pat "x # a" b] assms by auto
  with Cons.IH [OF nc Cons.prems(2)] show ?case by simp
qed

section \<open>Properties of the page builder\<close>

lemma PRELOAD_eq: "PRELOAD = [95, 95, 80, 82, 69, 76, 79, 65, 68, 95, 95]"
  by (simp add: PRELOAD_def ascii_def)

lemma SAMPLE_eq: "SAMPLE = [95, 95, 83, 65, 77, 80, 76, 69, 95, 95]"
  by (simp add: SAMPLE_def ascii_def)

lemma sample_body_eq:
  "concat (map escape_char default_sample) =
    [69, 32, 61, 32, 109, 99, 94, 50, 92, 110, 92, 92, 105, 110, 116, 95,
     48, 94, 123, 92, 92, 105, 110, 102, 116, 121, 125, 32, 101, 94, 123, 45,
     120, 94, 50, 125, 92, 92, 44, 100, 120, 32, 61, 32, 92, 92, 102, 114, 97,
     99, 123, 92, 92, 115, 113, 114, 116, 123, 92, 92, 112, 105, 125, 125, 123,
     50, 125, 92, 110, 92, 92, 116, 101, 120, 116, 98, 102, 123, 92, 117, 48,
     52, 49, 99, 92, 117, 48, 52, 51, 48, 92, 117, 48, 52, 52, 50, 92, 117, 48,
     52, 52, 48, 92, 117, 48, 52, 51, 56, 92, 117, 48, 52, 52, 54, 92, 117, 48,
     52, 51, 48, 58, 32, 125, 92, 92, 98, 101, 103, 105, 110, 123, 98, 109, 97,
     116, 114, 105, 120, 125, 49, 32, 38, 32, 48, 32, 92, 92, 32, 48, 32, 38,
     32, 49, 92, 92, 101, 110, 100, 123, 98, 109, 97, 116, 114, 105, 120, 125]"
  by (simp add: default_sample_def ascii_def escape_char_def hex4_def hexdigit_def BS_def DQ_def NL_def)

lemma DQ_notin_PRELOAD: "DQ \<notin> set PRELOAD"
  by (simp add: PRELOAD_eq DQ_def)

lemma DQ_notin_SAMPLE: "DQ \<notin> set SAMPLE"
  by (simp add: SAMPLE_eq DQ_def)

lemma PRELOAD_nonempty: "PRELOAD \<noteq> []"
  by (simp add: PRELOAD_eq)

lemma SAMPLE_nonempty: "SAMPLE \<noteq> []"
  by (simp add: SAMPLE_eq)

lemma no_SAMPLE_in_sample_body: "\<not> str_contains SAMPLE (concat (map escape_char default_sample))"
  unfolding sample_body_eq SAMPLE_eq by simp

lemma contains_dumps_body:
  "q \<notin> set pat \<Longrightarrow> str_contains pat (q # body @ [q]) \<longleftrightarrow> pat = [] \<or> str_contains pat body"
  using contains_quoted [of q pat "[]" body "[]"] by auto

lemma replace_in_quoted:
  assumes "q \<notin> set old" and "old \<noteq> []"
  shows "str_replace old new (a @ (q # body @ [q]) @ r) =
         str_replace old new a @ (q # str_replace old new body @ [q]) @ str_replace old new r"
  using replace_split_char [OF assms, of new a "body @ q # r"]
    replace_split_char [OF assms, of new body r]
  by simp

lemma replace_quoted:
  assumes "q \<notin> set old" and "old \<noteq> []"
  shows "str_replace old new (q # body @ [q]) = q # str_replace old new body @ [q]"
  using replace_in_quoted [OF assms, of new "[]" body "[]"] assms(2) by simp

lemma sample_dumps_eq:
  "json_dumps default_sample =
    [34, 69, 32, 61, 32, 109, 99, 94, 50, 92, 110, 92, 92, 105, 110, 116, 95,
     48, 94, 123, 92, 92, 105, 110, 102, 116, 121, 125, 32, 101, 94, 123, 45,
     120, 94, 50, 125, 92, 92, 44, 100, 120, 32, 61, 32, 92, 92, 102, 114, 97,
     99, 123, 92, 92, 115, 113, 114, 116, 123, 92, 92, 112, 105, 125, 125, 123,
     50, 125, 92, 110, 92, 92, 116, 101, 120, 116, 98, 102, 123, 92, 117, 48,
     52, 49, 99, 92, 117, 48, 52, 51, 48, 92, 117, 48, 52, 52, 50, 92, 117, 48,
     52, 52, 48, 92, 117, 48, 52, 51, 56, 92, 117, 48, 52, 52, 54, 92, 117, 48,
     52, 51, 48, 58, 32, 125, 92, 92, 98, 101, 103, 105, 110, 123, 98, 109, 97,
     116, 114, 105, 120, 125, 49, 32, 38, 32, 48, 32, 92, 92, 32, 48, 32, 38,
     32, 49, 92, 92, 101, 110, 100, 123, 98, 109, 97, 116, 114, 105, 120, 125, 34]"
  by (simp add: json_dumps_def sample_body_eq DQ_def)

lemmas eval_dumps = json_dumps_def escape_char_def hex4_def hexdigit_def BS_def DQ_def NL_def

text \<open>
  The sample token consists of characters that \<open>escape_char\<close> leaves as they are and
  that no escape sequence contains, so it occurs in the encoding of a string exactly when
  it occurs in the string.
\<close>

lemma hexdigit_range: "d < 16 \<Longrightarrow> (48 \<le> hexdigit d \<and> hexdigit d \<le> 57) \<or> (97 \<le> hexdigit d \<and> hexdigit d \<le> 102)"
  by (simp add: hexdigit_def)

lemma hex4_range: "x \<in> set (hex4 n) \<Longrightarrow> (48 \<le> x \<and> x \<le> 57) \<or> (97 \<le> x \<and> x \<le> 102)"
  using hexdigit_range [of "n div 4096 mod 16"] hexdigit_range [of "n div 256 mod 16"]
    hexdigit_range [of "n div 16 mod 16"] hexdigit_range [of "n mod 16"]
  by (auto simp: hex4_def)

lemma hex4_not_SAMPLE: "x \<in> set (hex4 n) \<Longrightarrow> x \<notin> set SAMPLE"
  by (drule hex4_range) (auto simp: SAMPLE_eq)

lemma escape_char_shape:
  "escape_char c = [c] \<or> (escape_char c \<noteq> [] \<and> set (escape_char c) \<inter> set SAMPLE = {})"
proof (cases "escape_char c = [c]")
  case True
  then show ?thesis by simp
next
  case False
  have ne: "escape_char c \<noteq> []" by (simp add: escape_char_def Let_def)
  have "x \<notin> set SAMPLE" if "x \<in> set (escape_char c)" for x
  proof -
    from that False
    have "x = 92 \<or> x = 34 \<or> x = 98 \<or> x = 102 \<or> x = 110 \<or> x = 114 \<or> x = 116 \<or> x = 117 \<or>
          (\<exists>n. x \<in> set (hex4 n))"
      by (auto simp: escape_char_def Let_def BS_def DQ_def split: if_splits)
    then show ?thesis by (auto simp: SAMPLE_eq dest: hex4_not_SAMPLE)
  qed
  with ne show ?thesis by blast
qed

lemma contains_skip_foreign:
  "set u \<inter> set pat = {} \<Longrightarrow> pat \<noteq> [] \<Longrightarrow> str_contains pat (u @ v) \<longleftrightarrow> str_contains pat v"
proof (induction u)
  case Nil
  show ?case by simp
next
  case (Cons x u)
  from Cons.prems have x: "x \<notin> set pat" and u: "set u \<inter> set pat = {}" by auto
  from contains_split_char [OF x, of "[]" "u @ v"] Cons.prems(2)
  have "str_contains pat ((x # u) @ v) \<longleftrightarrow> str_contains pat (u @ v)" by simp
  with Cons.IH [OF u Cons.prems(2)] show ?case by simp
qed

lemma prefix_of_escaped:
  "set pat \<subseteq> set SAMPLE \<Longrightarrow> prefix pat (concat (map escape_char m)) \<Longrightarrow> prefix pat m"
proof (induction m arbitrary: pat)
  case Nil
  then show ?case by simp
next
  case (Cons c m)
  show ?case
  proof (cases pat)
    case Nil
    then show ?thesis by simp
  next
    case (Cons p ps)
    from escape_char_shape [of c] show ?thesis
    proof
      assume e: "escape_char c = [c]"
      with Cons.prems(2) Cons have "p = c" and "prefix ps (concat (map escape_char m))" by simp_all
      moreover from Cons.prems(1) Cons have "set ps \<subseteq> set SAMPLE" by simp
      ultimately show ?thesis using Cons.IH Cons by simp
    next
      assume e: "escape_char c \<noteq> [] \<and> set (escape_char c) \<inter> set SAMPLE = {}"
      then obtain x xs where x: "escape_char c = x # xs" by (cases "escape_char c") auto
      with Cons.prems(2) Cons have "p = x" by simp
      with e x Cons.prems(1) Cons show ?thesis by auto
    qed
  qed
qed

lemma contains_of_escaped:
  assumes "set pat \<subseteq> set SAMPLE"
  shows "str_contains pat (concat (map escape_char m)) \<Longrightarrow> str_contains pat m"
proof (induction m)
  case Nil
  then show ?case by simp
next
  case (Cons c m)
  show ?case
  proof (cases "pat = []")
    case True
    then show ?thesis by (simp add: contains_Nil_pat)
  next
    case False
    from escape_char_shape [of c] show ?thesis
    proof
      assume e: "escape_char c = [c]"
      with Cons.prems have "prefix pat (c # concat (map escape_char m)) \<or>
          str_contains pat (concat (map escape_char m))" by simp
      then show ?thesis
      proof
        assume "prefix pat (c # concat (map escape_char m))"
        with e have "prefix pat (concat (map escape_char (c # m)))" by simp
        with assms have "prefix pat (c # m)" by (rule prefix_of_escaped)
        then show ?thesis by simp
      next
        assume "str_contains pat (concat (map escape_char m))"
        with Cons.IH show ?thesis by simp
      qed
    next
      assume e: "escape_char c \<noteq> [] \<and> set (escape_char c) \<inter> set SAMPLE = {}"
      with assms have "set (escape_char c) \<inter> set pat = {}" by auto
      from contains_skip_foreign [OF this False, of "concat (map escape_char m)"] Cons.prems
      have "str_contains pat (concat (map escape_char m))" by simp
      with Cons.IH show ?thesis by simp
    qed
  qed
qed

lemma escape_SAMPLE: "concat (map escape_char SAMPLE) = SAMPLE"
  by (simp add: SAMPLE_eq escape_char_def BS_def DQ_def)

lemma dumps_contains_SAMPLE: "str_contains SAMPLE (json_dumps m) \<longleftrightarrow> str_contains SAMPLE m"
proof
  assume "str_contains SAMPLE (json_dumps m)"
  then have "str_contains SAMPLE (concat (map escape_char m))"
    using contains_dumps_body [OF DQ_notin_SAMPLE, of "concat (map escape_char m)"] SAMPLE_nonempty
    by (simp add: json_dumps_def)
  then show "str_contains SAMPLE m" by (rule contains_of_escaped [OF subset_refl])
next
  assume "str_contains SAMPLE m"
  then obtain p q where "m = p @ SAMPLE @ q" by (auto simp: str_contains_iff)
  then have "concat (map escape_char m) =
      concat (map escape_char p) @ SAMPLE @ concat (map escape_char q)"
    by (simp add: escape_SAMPLE)
  then have "str_contains SAMPLE (concat (map escape_char m))"
    unfolding str_contains_iff by blast
  then show "str_contains SAMPLE (json_dumps m)"
    using contains_dumps_body [OF DQ_notin_SAMPLE, of "concat (map escape_char m)"]
    by (simp add: json_dumps_def)
qed

lemma build_page_text_split:
  assumes "t = a @ PRELOAD @ b"
    and "\<not> str_contains PRELOAD (a @ butlast PRELOAD)"
  shows "build_page_text latex t =
           str_replace SAMPLE (json_dumps default_sample) a @
           str_replace SAMPLE (json_dumps default_sample) (json_dumps latex) @
           str_replace SAMPLE (json_dumps default_sample) (str_replace PRELOAD (json_dumps latex) b)"
proof -
  let ?J = "json_dumps default_sample"
  let ?body = "concat (map escape_char latex)"
  have d: "str_replace PRELOAD (json_dumps latex) t =
           a @ json_dumps latex @ str_replace PRELOAD (json_dumps latex) b"
    unfolding assms(1) using PRELOAD_nonempty assms(2) by (rule replace_first)
  have "str_replace SAMPLE ?J (a @ (DQ # ?body @ [DQ]) @ str_replace PRELOAD (json_dumps latex) b) =
        str_replace SAMPLE ?J a @ (DQ # str_replace SAMPLE ?J ?body @ [DQ]) @
        str_replace SAMPLE ?J (str_replace PRELOAD (json_dumps latex) b)"
    using DQ_notin_SAMPLE SAMPLE_nonempty by (rule replace_in_quoted)
  moreover have "str_replace SAMPLE ?J (DQ # ?body @ [DQ]) = DQ # str_replace SAMPLE ?J ?body @ [DQ]"
    using DQ_notin_SAMPLE SAMPLE_nonempty by (rule replace_quoted)
  ultimately show ?thesis
    unfolding build_page_text_def d by (simp add: json_dumps_def)
qed

text \<open>
  Claim C10. The content placeholder is substituted first and the sample placeholder is
  then substituted in the whole of the resulting text. So where the template holds the
  content placeholder and the JSON encoding of the markup contains the sample token, the
  final document holds, in the place of the content placeholder, the encoded markup with
  each of its sample tokens replaced by the encoded sample: that text contains the
  encoded sample and no sample token.
\<close>

theorem sample_replaced_inside_content:
  assumes "t = a @ PRELOAD @ b"
    and "\<not> str_contains PRELOAD (a @ butlast PRELOAD)"
    and "str_contains SAMPLE (json_dumps latex)"
  shows "build_page_text latex t =
           str_replace SAMPLE (json_dumps default_sample) (str_replace PRELOAD (json_dumps latex) t) \<and>
         build_page_text latex t =
           str_replace SAMPLE (json_dumps default_sample) a @
           str_replace SAMPLE (json_dumps default_sample) (json_dumps latex) @
           str_replace SAMPLE (json_dumps default_sample) (str_replace PRELOAD (json_dumps latex) b) \<and>
         str_contains (json_dumps default_sample)
           (str_replace SAMPLE (json_dumps default_sample) (json_dumps latex)) \<and>
         \<not> str_contains SAMPLE (str_replace SAMPLE (json_dumps default_sample) (json_dumps latex))"
proof -
  let ?J = "json_dumps default_sample"
  note 2 = build_page_text_split [OF assms(1,2), of latex]
  have 3: "str_contains ?J (str_replace SAMPLE ?J (json_dumps latex))"
    using SAMPLE_nonempty assms(3) by (rule contains_new_after_replace)
  have "\<not> str_contains SAMPLE
          (str_replace SAMPLE (DQ # concat (map escape_char default_sample) @ [DQ]) (json_dumps latex))"
    using DQ_notin_SAMPLE no_SAMPLE_in_sample_body SAMPLE_nonempty by (rule no_old_after_replace)
  then have 4: "\<not> str_contains SAMPLE (str_replace SAMPLE ?J (json_dumps latex))"
    by (simp add: json_dumps_def)
  from 2 3 4 show ?thesis by (simp add: build_page_text_def)
qed

theorem sample_replaced_inside_content_witness:
  "str_contains (json_dumps default_sample)
     (str_replace SAMPLE (json_dumps default_sample) (json_dumps ([36, 36, 10] @ SAMPLE @ [10, 36, 36]))) \<and>
   \<not> str_contains SAMPLE
     (str_replace SAMPLE (json_dumps default_sample) (json_dumps ([36, 36, 10] @ SAMPLE @ [10, 36, 36]))) \<and>
   build_page_text ([36, 36, 10] @ SAMPLE @ [10, 36, 36]) PRELOAD =
     [34, 36, 36, 92, 110] @ json_dumps default_sample @ [92, 110, 36, 36, 34]"
proof -
  have 1: "PRELOAD = [] @ PRELOAD @ []" by simp
  have 2: "\<not> str_contains PRELOAD ([] @ butlast PRELOAD)" by (simp add: PRELOAD_eq)
  have 3: "str_contains SAMPLE (json_dumps ([36, 36, 10] @ SAMPLE @ [10, 36, 36]))"
    by (simp add: SAMPLE_eq eval_dumps)
  have 4: "build_page_text ([36, 36, 10] @ SAMPLE @ [10, 36, 36]) PRELOAD =
     [34, 36, 36, 92, 110] @ json_dumps default_sample @ [92, 110, 36, 36, 34]"
    by (simp add: build_page_text_def PRELOAD_eq SAMPLE_eq eval_dumps sample_body_eq)
  from sample_replaced_inside_content [OF 1 2 3] 4 show ?thesis by blast
qed

text \<open>
  Claim C5, as amended. A template without the content placeholder: that substitution
  changes nothing and the sample substitution is still made. A template without the
  sample placeholder, when the markup does not contain the sample token either:
  the sample substitution changes nothing and the content substitution is still made.
  No error is raised in either case: \<open>build_page_text\<close> is a total function.
\<close>

theorem missing_placeholder_is_noop:
  "(\<not> str_contains PRELOAD t \<longrightarrow>
      build_page_text latex t = str_replace SAMPLE (json_dumps default_sample) t) \<and>
   (\<not> str_contains SAMPLE t \<and> \<not> str_contains SAMPLE latex \<longrightarrow>
      build_page_text latex t = str_replace PRELOAD (json_dumps latex) t)"
proof (intro conjI impI)
  assume "\<not> str_contains PRELOAD t"
  then show "build_page_text latex t = str_replace SAMPLE (json_dumps default_sample) t"
    by (simp add: build_page_text_def replace_noop)
next
  let ?body = "concat (map escape_char latex)"
  assume a: "\<not> str_contains SAMPLE t \<and> \<not> str_contains SAMPLE latex"
  then have "\<not> str_contains SAMPLE (json_dumps latex)" using dumps_contains_SAMPLE by blast
  then have "\<not> str_contains SAMPLE (DQ # ?body @ [DQ])" by (simp add: json_dumps_def)
  then have nb: "\<not> str_contains SAMPLE ?body"
    using contains_dumps_body [OF DQ_notin_SAMPLE, of ?body] by blast
  have "\<not> str_contains SAMPLE (str_replace PRELOAD (DQ # ?body @ [DQ]) t)"
    using contains_after_replace [OF DQ_notin_SAMPLE PRELOAD_nonempty, of ?body t] a nb by blast
  then show "build_page_text latex t = str_replace PRELOAD (json_dumps latex) t"
    by (simp add: build_page_text_def json_dumps_def replace_noop)
qed

theorem missing_placeholder_is_noop_witness:
  "build_page_text [121] (ascii ''b=__SAMPLE__'') = ascii ''b='' @ json_dumps default_sample \<and>
   build_page_text [121] (ascii ''a=__PRELOAD__;'') = ascii ''a='' @ [34, 121, 34, 59]"
proof -
  have 1: "\<not> str_contains PRELOAD (ascii ''b=__SAMPLE__'')"
    by (simp add: PRELOAD_eq ascii_def)
  have 2: "\<not> str_contains SAMPLE (ascii ''a=__PRELOAD__;'') \<and> \<not> str_contains SAMPLE [121]"
    by (simp add: SAMPLE_eq ascii_def)
  have 3: "str_replace SAMPLE (json_dumps default_sample) (ascii ''b=__SAMPLE__'') =
           ascii ''b='' @ json_dumps default_sample"
    by (simp add: SAMPLE_eq ascii_def)
  have 4: "str_replace PRELOAD (json_dumps [121]) (ascii ''a=__PRELOAD__;'') = ascii ''a='' @ [34, 121, 34, 59]"
    by (simp add: PRELOAD_eq ascii_def eval_dumps)
  from missing_placeholder_is_noop [of "ascii ''b=__SAMPLE__''" "[121]"]
    missing_placeholder_is_noop [of "ascii ''a=__PRELOAD__;''" "[121]"] 1 2
  show ?thesis unfolding 3 4 by blast
qed

text \<open>
  The claim without the proviso fails: with the template \<open>__PRELOAD__\<close>, which holds no
  sample placeholder, and the markup \<open>__SAMPLE__\<close>, the sample substitution changes the
  document.
\<close>

theorem missing_placeholder_is_noop_counterexample:
  "\<not> str_contains SAMPLE PRELOAD \<and>
   build_page_text SAMPLE PRELOAD \<noteq> str_replace PRELOAD (json_dumps SAMPLE) PRELOAD"
  by (simp add: build_page_text_def sample_dumps_eq SAMPLE_eq PRELOAD_eq eval_dumps)

text \<open>
  Claim C3, as amended. The encoded sample is a constant that does not depend on the
  markup. When the template, after the content substitution, holds the sample
  placeholder at exactly one place, and the text around that place does not itself spell
  the encoded sample, the document is that text with the encoded sample in the place of
  the placeholder, and the encoded sample occurs in it exactly once.
\<close>

theorem sample_once:
  assumes "str_replace PRELOAD (json_dumps latex) t = a @ SAMPLE @ b"
    and "\<not> str_contains SAMPLE (a @ butlast SAMPLE)"
    and "\<not> str_contains SAMPLE b"
    and "\<not> str_contains (json_dumps default_sample) (a @ butlast (json_dumps default_sample))"
    and "\<not> str_contains (json_dumps default_sample) (tl (json_dumps default_sample) @ b)"
  shows "build_page_text latex t = a @ json_dumps default_sample @ b \<and>
         count_occ (json_dumps default_sample) (build_page_text latex t) = 1"
proof -
  let ?J = "json_dumps default_sample"
  have "str_replace SAMPLE ?J (a @ SAMPLE @ b) = a @ ?J @ str_replace SAMPLE ?J b"
    using SAMPLE_nonempty assms(2) by (rule replace_first)
  with assms(1,3) have 1: "build_page_text latex t = a @ ?J @ b"
    by (simp add: build_page_text_def replace_noop)
  have "?J \<noteq> []" by (simp add: json_dumps_def)
  then have "count_occ ?J (a @ ?J @ b) = 1" using assms(4,5) by (rule count_once)
  with 1 show ?thesis by simp
qed

theorem sample_once_witness:
  "build_page_text [36, 36, 10, 120, 10, 36, 36] (ascii ''a=__PRELOAD__;b=__SAMPLE__;'') =
     ascii ''a='' @ json_dumps [36, 36, 10, 120, 10, 36, 36] @ ascii '';b='' @
     json_dumps default_sample @ ascii '';'' \<and>
   count_occ (json_dumps default_sample)
     (build_page_text [36, 36, 10, 120, 10, 36, 36] (ascii ''a=__PRELOAD__;b=__SAMPLE__;'')) = 1"
proof -
  let ?a = "ascii ''a='' @ json_dumps [36, 36, 10, 120, 10, 36, 36] @ ascii '';b=''"
  let ?b = "ascii '';''"
  have 1: "str_replace PRELOAD (json_dumps [36, 36, 10, 120, 10, 36, 36])
             (ascii ''a=__PRELOAD__;b=__SAMPLE__;'') = ?a @ SAMPLE @ ?b"
    by (simp add: PRELOAD_eq SAMPLE_eq ascii_def eval_dumps)
  have 2: "\<not> str_contains SAMPLE (?a @ butlast SAMPLE)"
    by (simp add: SAMPLE_eq ascii_def eval_dumps)
  have 3: "\<not> str_contains SAMPLE ?b"
    by (simp add: SAMPLE_eq ascii_def)
  have 4: "\<not> str_contains (json_dumps default_sample) (?a @ butlast (json_dumps default_sample))"
    unfolding sample_dumps_eq by (simp add: ascii_def eval_dumps)
  have 5: "\<not> str_contains (json_dumps default_sample) (tl (json_dumps default_sample) @ ?b)"
    unfolding sample_dumps_eq by (simp add: ascii_def)
  from sample_once [OF 1 2 3 4 5] show ?thesis unfolding append_assoc .
qed

text \<open>
  The claim for every markup and template fails: with the template
  \<open>__PRELOAD__;__SAMPLE__\<close> and the markup that \<open>normalize_latex\<close> makes of
  \<open>__SAMPLE__\<close>, the encoded sample occurs twice.
\<close>

theorem sample_once_counterexample:
  "normalize_latex SAMPLE = [36, 36, 10] @ SAMPLE @ [10, 36, 36] \<and>
   count_occ (json_dumps default_sample)
     (build_page_text ([36, 36, 10] @ SAMPLE @ [10, 36, 36]) (PRELOAD @ [59] @ SAMPLE)) = 2"
proof -
  have "normalize_latex SAMPLE = [36, 36, 10] @ SAMPLE @ [10, 36, 36]"
    by (simp add: normalize_latex_def strip_def is_space_def markers_def SAMPLE_eq BS_def NL_def)
  moreover have "build_page_text ([36, 36, 10] @ SAMPLE @ [10, 36, 36]) (PRELOAD @ [59] @ SAMPLE) =
      [34, 36, 36, 92, 110] @ json_dumps default_sample @ [92, 110, 36, 36, 34, 59] @
      json_dumps default_sample"
    by (simp add: build_page_text_def PRELOAD_eq SAMPLE_eq eval_dumps sample_body_eq)
  moreover have "count_occ (json_dumps default_sample)
      ([34, 36, 36, 92, 110] @ json_dumps default_sample @ [92, 110, 36, 36, 34, 59] @
      json_dumps default_sample) = 2"
    unfolding sample_dumps_eq by simp
  ultimately show ?thesis by simp
qed

section \<open>Encoding and decoding\<close>

lemma unhex_hexdigit: "d < 16 \<Longrightarrow> unhex (hexdigit d) = Some d"
  by (simp add: unhex_def hexdigit_def)

lemma hex_value:
  assumes "n < 65536"
  shows "((n div 4096 mod 16 * 16 + n div 256 mod 16) * 16 + n div 16 mod 16) * 16 + n mod 16 = (n::nat)"
proof -
  have a: "n div 16 div 16 = n div 256" by (simp add: div_mult2_eq [symmetric])
  have b: "n div 256 div 16 = n div 4096" by (simp add: div_mult2_eq [symmetric])
  have "n div 4096 < 16" using assms by (simp add: less_mult_imp_div_less)
  then have c: "n div 4096 mod 16 = n div 4096" by simp
  have "n div 4096 * 16 + n div 256 mod 16 = n div 256"
    using div_mult_mod_eq [of "n div 256" 16] by (simp only: b)
  moreover have "n div 256 * 16 + n div 16 mod 16 = n div 16"
    using div_mult_mod_eq [of "n div 16" 16] by (simp only: a)
  moreover have "n div 16 * 16 + n mod 16 = n" by (rule div_mult_mod_eq)
  ultimately show ?thesis by (simp only: c)
qed


lemma decode_hex4:
  assumes "n < 65536" shows "decode_uXXXX (hex4 n) = Some n"
proof -
  have "decode_uXXXX (hex4 n) =
     Some (((n div 4096 mod 16 * 16 + n div 256 mod 16) * 16 + n div 16 mod 16) * 16 + n mod 16)"
    unfolding decode_uXXXX_def hex4_def by (simp only: list.case prod.case option.case unhex_hexdigit mod_less_divisor zero_less_numeral)
  then show ?thesis by (simp only: hex_value [OF assms])
qed

lemma take_hex4: "take 4 (hex4 n @ r) = hex4 n"
  by (simp add: hex4_def)

lemma drop_hex4: "drop 4 (hex4 n @ r) = r"
  by (simp add: hex4_def)

lemma scan_plain:
  "32 \<le> c \<Longrightarrow> c \<noteq> DQ \<Longrightarrow> c \<noteq> BS \<Longrightarrow> scanstring (c # r) = append_char c (scanstring r)"
  by simp

lemma scan_short:
  "BACKSLASH e = Some ch \<Longrightarrow> e \<noteq> 117 \<Longrightarrow> scanstring (BS # e # r) = append_char ch (scanstring r)"
  by (simp add: BS_def DQ_def)


lemma scan_u_unfold:
  "scanstring (BS # 117 # r) =
     (case decode_uXXXX (take 4 r) of
        None \<Rightarrow> Inl InvalidEscape
      | Some uni \<Rightarrow>
          if 55296 \<le> uni \<and> uni \<le> 56319 \<and> take 2 (drop 4 r) = [BS, 117] then
            (case decode_uXXXX (take 4 (drop 6 r)) of
               None \<Rightarrow> Inl InvalidEscape
             | Some uni2 \<Rightarrow>
                 if 56320 \<le> uni2 \<and> uni2 \<le> 57343
                 then append_char (65536 + ((uni - 55296) * 1024 + (uni2 - 56320)))
                        (scanstring (drop 10 r))
                 else append_char uni (scanstring (drop 4 r)))
          else append_char uni (scanstring (drop 4 r)))"
  by (simp add: BS_def DQ_def)

lemma scan_u_single:
  assumes "n < 65536" and "high_surrogate n \<longrightarrow> next_ok r"
  shows "scanstring ([BS, 117] @ hex4 n @ r) = append_char n (scanstring r)"
proof -
  have d: "decode_uXXXX (take 4 (hex4 n @ r)) = Some n"
    using assms(1) by (simp only: take_hex4 decode_hex4)
  have dr: "drop 4 (hex4 n @ r) = r" by (rule drop_hex4)
  have "drop 6 (hex4 n @ r) = drop 2 (drop 4 (hex4 n @ r))" by (simp add: hex4_def)
  then have d6: "drop 6 (hex4 n @ r) = drop 2 r" by (simp only: dr)
  have s: "scanstring ([BS, 117] @ hex4 n @ r) =
      (if 55296 \<le> n \<and> n \<le> 56319 \<and> take 2 r = [BS, 117] then
         (case decode_uXXXX (take 4 (drop 2 r)) of
            None \<Rightarrow> Inl InvalidEscape
          | Some uni2 \<Rightarrow>
              if 56320 \<le> uni2 \<and> uni2 \<le> 57343
              then append_char (65536 + ((n - 55296) * 1024 + (uni2 - 56320)))
                     (scanstring (drop 10 (hex4 n @ r)))
              else append_char n (scanstring r))
       else append_char n (scanstring r))"
    by (simp only: append_Cons append_Nil scan_u_unfold d dr d6 option.case)
  show ?thesis
  proof (cases "55296 \<le> n \<and> n \<le> 56319 \<and> take 2 r = [BS, 117]")
    case False
    with s show ?thesis by (simp only: if_False)
  next
    case True
    with assms(2) obtain u where du: "decode_uXXXX (take 4 (drop 2 r)) = Some u"
      and nlow: "\<not> low_surrogate u"
      by (auto simp: next_ok_def high_surrogate_def)
    from nlow have nl: "\<not> (56320 \<le> u \<and> u \<le> 57343)" unfolding low_surrogate_def .
    from s show ?thesis by (simp only: True du nl if_True if_False option.case simp_thms)
  qed
qed

lemma scan_u_pair:
  assumes "55296 \<le> s1" and "s1 \<le> 56319" and "56320 \<le> s2" and "s2 \<le> 57343"
  shows "scanstring ([BS, 117] @ hex4 s1 @ [BS, 117] @ hex4 s2 @ r) =
         append_char (65536 + ((s1 - 55296) * 1024 + (s2 - 56320))) (scanstring r)"
proof -
  let ?r = "hex4 s1 @ [BS, 117] @ hex4 s2 @ r"
  from assms(2) have "s1 < 65536" by simp
  then have d: "decode_uXXXX (take 4 ?r) = Some s1"
    by (simp only: take_hex4 decode_hex4)
  have dr: "drop 4 ?r = [BS, 117] @ hex4 s2 @ r" by (rule drop_hex4)
  have "drop 6 ?r = drop 2 (drop 4 ?r)" by (simp add: hex4_def)
  then have d6: "drop 6 ?r = hex4 s2 @ r" by (simp only: dr) simp
  have "drop 10 ?r = drop 4 (drop 6 ?r)" by (simp add: hex4_def)
  then have d10: "drop 10 ?r = r" by (simp only: d6 drop_hex4)
  from assms(4) have "s2 < 65536" by simp
  then have d2: "decode_uXXXX (take 4 (hex4 s2 @ r)) = Some s2"
    by (simp only: take_hex4 decode_hex4)
  have t2: "take 2 ([BS, 117] @ hex4 s2 @ r) = [BS, 117]" by simp
  have "scanstring (BS # 117 # ?r) =
         append_char (65536 + ((s1 - 55296) * 1024 + (s2 - 56320))) (scanstring r)"
    using assms by (simp only: scan_u_unfold d dr d6 d10 d2 t2 option.case simp_thms if_True)
  then show ?thesis by simp
qed


lemma pair_value:
  assumes "n < 1048576"
  shows "65536 + ((55296 + n div 1024 mod 1024 - 55296) * 1024 + (56320 + n mod 1024 - 56320)) =
         65536 + (n::nat)"
proof -
  have "n div 1024 < 1024" using assms by (simp add: less_mult_imp_div_less)
  then have "n div 1024 mod 1024 = n div 1024" by simp
  moreover have "n div 1024 * 1024 + n mod 1024 = n" by (rule div_mult_mod_eq)
  ultimately show ?thesis by simp
qed

lemma escape_char_cases:
  assumes "c < 1114112"
  shows "(\<exists>e. escape_char c = [BS, e] \<and> e \<noteq> 117 \<and> BACKSLASH e = Some c) \<or>
         (escape_char c = [c] \<and> 32 \<le> c \<and> c \<noteq> DQ \<and> c \<noteq> BS) \<or>
         (escape_char c = [BS, 117] @ hex4 c \<and> c < 65536) \<or>
         (\<exists>s1 s2. escape_char c = [BS, 117] @ hex4 s1 @ [BS, 117] @ hex4 s2 \<and>
            55296 \<le> s1 \<and> s1 \<le> 56319 \<and> 56320 \<le> s2 \<and> s2 \<le> 57343 \<and>
            65536 + ((s1 - 55296) * 1024 + (s2 - 56320)) = c)"
proof (cases "c < 65536")
  case True
  then show ?thesis
    by (simp add: escape_char_def BACKSLASH_def BS_def DQ_def)
next
  case False
  let ?n = "c - 65536"
  let ?s1 = "55296 + ?n div 1024 mod 1024"
  let ?s2 = "56320 + ?n mod 1024"
  from False have e: "escape_char c = [BS, 117] @ hex4 ?s1 @ [BS, 117] @ hex4 ?s2"
    by (simp add: escape_char_def BS_def DQ_def Let_def)
  from assms False have "?n < 1048576" by simp
  then have "65536 + ((?s1 - 55296) * 1024 + (?s2 - 56320)) = 65536 + ?n" by (rule pair_value)
  with False have v: "65536 + ((?s1 - 55296) * 1024 + (?s2 - 56320)) = c" by simp
  have "55296 \<le> ?s1" and "?s1 \<le> 56319" and "56320 \<le> ?s2" and "?s2 \<le> 57343"
    by simp_all
  with e v show ?thesis by blast
qed

lemma scan_escape_char:
  assumes "c < 1114112" and "high_surrogate c \<longrightarrow> next_ok r"
  shows "scanstring (escape_char c @ r) = append_char c (scanstring r)"
proof -
  from escape_char_cases [OF assms(1)]
  consider (short) e where "escape_char c = [BS, e]" "e \<noteq> 117" "BACKSLASH e = Some c"
    | (plain) "escape_char c = [c]" "32 \<le> c" "c \<noteq> DQ" "c \<noteq> BS"
    | (single) "escape_char c = [BS, 117] @ hex4 c" "c < 65536"
    | (pair) s1 s2 where "escape_char c = [BS, 117] @ hex4 s1 @ [BS, 117] @ hex4 s2"
        "55296 \<le> s1" "s1 \<le> 56319" "56320 \<le> s2" "s2 \<le> 57343"
        "65536 + ((s1 - 55296) * 1024 + (s2 - 56320)) = c"
    by blast
  then show ?thesis
  proof cases
    case short
    from scan_short [OF short(3,2), of r] short(1) show ?thesis by simp
  next
    case plain
    from scan_plain [OF plain(2,3,4), of r] plain(1) show ?thesis by simp
  next
    case single
    from scan_u_single [OF single(2) assms(2)] single(1) show ?thesis by simp
  next
    case pair
    from scan_u_pair [OF pair(2,3,4,5), of r] pair(1,6) show ?thesis by simp
  qed
qed

lemma next_ok_escaped:
  assumes "code_points m" and "m = [] \<or> \<not> low_surrogate (hd m)"
  shows "next_ok (concat (map escape_char m) @ DQ # tail)"
proof (cases m)
  case Nil
  then show ?thesis by (simp add: next_ok_def DQ_def BS_def)
next
  case (Cons c m')
  let ?r = "concat (map escape_char m') @ DQ # tail"
  from assms Cons have c: "c < 1114112" and nl: "\<not> low_surrogate c"
    by (simp_all add: code_points_def)
  from escape_char_cases [OF c]
  consider (short) e where "escape_char c = [BS, e]" "e \<noteq> 117"
    | (plain) "escape_char c = [c]" "c \<noteq> BS"
    | (single) "escape_char c = [BS, 117] @ hex4 c" "c < 65536"
    | (pair) s1 s2 where "escape_char c = [BS, 117] @ hex4 s1 @ [BS, 117] @ hex4 s2"
        "s1 \<le> 56319"
    by blast
  then have "next_ok (escape_char c @ ?r)"
  proof cases
    case short
    then show ?thesis by (simp add: next_ok_def)
  next
    case plain
    then show ?thesis by (simp add: next_ok_def)
  next
    case single
    have "decode_uXXXX (take 4 (drop 2 (([BS, 117] @ hex4 c) @ ?r))) = Some c"
      using single(2) by (simp add: take_hex4 decode_hex4 del: take_append)
    with nl single(1) show ?thesis unfolding next_ok_def by metis
  next
    case pair
    from pair(2) have "s1 < 65536" by simp
    then have "decode_uXXXX (take 4 (drop 2 (([BS, 117] @ hex4 s1 @ [BS, 117] @ hex4 s2) @ ?r))) = Some s1"
      by (simp add: take_hex4 decode_hex4 del: take_append)
    moreover from pair(2) have "\<not> low_surrogate s1" by (simp add: low_surrogate_def)
    ultimately show ?thesis using pair(1) unfolding next_ok_def by metis
  qed
  with Cons show ?thesis by simp
qed

lemma no_surrogate_pair_tail: "no_surrogate_pair (c # m) \<Longrightarrow> no_surrogate_pair m"
  by (cases m) (simp_all split: if_splits)

lemma no_surrogate_pair_head:
  "no_surrogate_pair (c # m) \<Longrightarrow> high_surrogate c \<Longrightarrow> m = [] \<or> \<not> low_surrogate (hd m)"
  by (cases m) (simp_all split: if_splits)

lemma scan_escaped:
  "code_points m \<Longrightarrow> no_surrogate_pair m \<Longrightarrow>
   scanstring (concat (map escape_char m) @ DQ # tail) = Inr (m, tail)"
proof (induction m)
  case Nil
  show ?case by simp
next
  case (Cons c m)
  let ?r = "concat (map escape_char m) @ DQ # tail"
  from Cons.prems(1) have c: "c < 1114112" and cm: "code_points m"
    by (simp_all add: code_points_def)
  from Cons.prems(2) have nm: "no_surrogate_pair m" by (rule no_surrogate_pair_tail)
  have "high_surrogate c \<longrightarrow> next_ok ?r"
    using next_ok_escaped [OF cm] no_surrogate_pair_head [OF Cons.prems(2)] by blast
  with c have "scanstring (escape_char c @ ?r) = append_char c (scanstring ?r)"
    by (rule scan_escape_char)
  with Cons.IH [OF cm nm] show ?case by (simp add: append_char_def)
qed

lemma loads_dumps:
  assumes "code_points m" and "no_surrogate_pair m"
  shows "json_loads (json_dumps m) = Inr m"
proof -
  have "scanstring (concat (map escape_char m) @ DQ # []) = Inr (m, [])"
    using assms by (rule scan_escaped)
  then show ?thesis by (simp add: json_loads_def json_dumps_def is_json_ws_def DQ_def)
qed

text \<open>
  A high surrogate directly before a low surrogate is not restored: the reader joins the
  two escapes into one code point.
\<close>

lemma surrogate_pair_joined: "json_loads (json_dumps [34, 55357, 56832]) = Inr [34, 128512]"
  by (simp add: eval_dumps json_loads_def is_json_ws_def decode_uXXXX_def unhex_def
      BACKSLASH_def append_char_def)

text \<open>
  Claim C4, as amended. For a markup made of code points a \<open>str\<close> can hold, with no high
  surrogate directly before a low surrogate, which does not contain the sample token,
  and a template holding the content placeholder: decoding the encoded
  markup gives the markup back, the document holds the encoded markup unchanged in the
  place of the first content placeholder, and reading the JSON string at that place of
  the document gives the markup and stops at the text after it. A double quote in the
  markup needs no special care.
\<close>

theorem embedded_markup_round_trip:
  assumes "code_points latex" and "no_surrogate_pair latex"
    and "\<not> str_contains SAMPLE latex"
    and "t = a @ PRELOAD @ b"
    and "\<not> str_contains PRELOAD (a @ butlast PRELOAD)"
  shows "json_loads (json_dumps latex) = Inr latex \<and>
         build_page_text latex t =
           str_replace SAMPLE (json_dumps default_sample) a @ json_dumps latex @
           str_replace SAMPLE (json_dumps default_sample) (str_replace PRELOAD (json_dumps latex) b) \<and>
         scanstring (drop (Suc (length (str_replace SAMPLE (json_dumps default_sample) a)))
                      (build_page_text latex t)) =
           Inr (latex,
                str_replace SAMPLE (json_dumps default_sample) (str_replace PRELOAD (json_dumps latex) b))"
proof -
  let ?A = "str_replace SAMPLE (json_dumps default_sample) a"
  let ?B = "str_replace SAMPLE (json_dumps default_sample) (str_replace PRELOAD (json_dumps latex) b)"
  have 1: "json_loads (json_dumps latex) = Inr latex"
    using assms(1,2) by (rule loads_dumps)
  from assms(3) have "\<not> str_contains SAMPLE (json_dumps latex)"
    using dumps_contains_SAMPLE by blast
  then have "str_replace SAMPLE (json_dumps default_sample) (json_dumps latex) = json_dumps latex"
    by (rule replace_noop)
  with build_page_text_split [OF assms(4,5), of latex]
  have 2: "build_page_text latex t = ?A @ json_dumps latex @ ?B" by simp
  have "drop (Suc (length ?A)) (?A @ json_dumps latex @ ?B) =
        concat (map escape_char latex) @ DQ # ?B"
    by (simp add: json_dumps_def)
  moreover have "scanstring (concat (map escape_char latex) @ DQ # ?B) = Inr (latex, ?B)"
    using assms(1,2) by (rule scan_escaped)
  ultimately have 3: "scanstring (drop (Suc (length ?A)) (build_page_text latex t)) = Inr (latex, ?B)"
    by (simp only: 2)
  from 1 2 3 show ?thesis by blast
qed

theorem embedded_markup_round_trip_witness:
  "json_loads (json_dumps [36, 36, 10, 34, 120, 34, 10, 36, 36]) = Inr [36, 36, 10, 34, 120, 34, 10, 36, 36] \<and>
   scanstring (drop 3 (build_page_text [36, 36, 10, 34, 120, 34, 10, 36, 36] (ascii ''a=__PRELOAD__;''))) =
     Inr ([36, 36, 10, 34, 120, 34, 10, 36, 36], ascii '';'')"
proof -
  let ?L = "[36, 36, 10, 34, 120, 34, 10, 36, 36]"
  have 1: "code_points ?L" by (simp add: code_points_def)
  have 2: "no_surrogate_pair ?L" by (simp add: high_surrogate_def)
  have 3: "\<not> str_contains SAMPLE ?L" by (simp add: SAMPLE_eq)
  have 4: "ascii ''a=__PRELOAD__;'' = ascii ''a='' @ PRELOAD @ ascii '';''"
    by (simp add: PRELOAD_def ascii_def)
  have 5: "\<not> str_contains PRELOAD (ascii ''a='' @ butlast PRELOAD)"
    by (simp add: PRELOAD_eq ascii_def)
  have 6: "str_replace SAMPLE (json_dumps default_sample) (ascii ''a='') = ascii ''a=''"
    by (simp add: SAMPLE_eq ascii_def)
  have 7: "str_replace SAMPLE (json_dumps default_sample)
             (str_replace PRELOAD (json_dumps ?L) (ascii '';'')) = ascii '';''"
    by (simp add: SAMPLE_eq PRELOAD_eq ascii_def)
  have 8: "Suc (length (ascii ''a='')) = 3" by (simp add: ascii_def)
  from embedded_markup_round_trip [OF 1 2 3 4 5] show ?thesis
    unfolding 6 7 8 by blast
qed

text \<open>
  The claim for every normalized markup fails: \<open>normalize_latex\<close> turns the input of a
  double quote followed by \<open>__SAMPLE__\<close> into a markup whose embedded string, with the
  template \<open>__PRELOAD__\<close>, is cut short by the quote that opens the substituted sample.
\<close>

theorem embedded_markup_round_trip_counterexample:
  "normalize_latex (34 # SAMPLE) = [36, 36, 10, 34] @ SAMPLE @ [10, 36, 36] \<and>
   map_sum id fst (scanstring (tl (build_page_text ([36, 36, 10, 34] @ SAMPLE @ [10, 36, 36]) PRELOAD))) =
     Inr [36, 36, 10, 34] \<and>
   json_loads (build_page_text ([36, 36, 10, 34] @ SAMPLE @ [10, 36, 36]) PRELOAD) = Inl ExtraData"
proof -
  have 1: "normalize_latex (34 # SAMPLE) = [36, 36, 10, 34] @ SAMPLE @ [10, 36, 36]"
    by (simp add: normalize_latex_def strip_def is_space_def markers_def SAMPLE_eq BS_def NL_def)
  have 2: "build_page_text ([36, 36, 10, 34] @ SAMPLE @ [10, 36, 36]) PRELOAD =
      [34, 36, 36, 92, 110, 92, 34] @ json_dumps default_sample @ [92, 110, 36, 36, 34]"
    by (simp add: build_page_text_def PRELOAD_eq SAMPLE_eq eval_dumps sample_body_eq)
  have 3: "scanstring (tl ([34, 36, 36, 92, 110, 92, 34] @ json_dumps default_sample @ [92, 110, 36, 36, 34])) =
      Inr ([36, 36, 10, 34], tl (json_dumps default_sample) @ [92, 110, 36, 36, 34])"
    by (simp add: json_dumps_def BS_def DQ_def BACKSLASH_def append_char_def)
  have 4: "json_loads ([34, 36, 36, 92, 110, 92, 34] @ json_dumps default_sample @ [92, 110, 36, 36, 34]) =
      Inl ExtraData"
    unfolding sample_dumps_eq
    by (simp add: json_loads_def is_json_ws_def BS_def DQ_def BACKSLASH_def append_char_def)
  from 1 3 4 show ?thesis unfolding 2 by simp
qed

section \<open>Properties of the input resolver and of the run\<close>

lemma ascii_append: "ascii (xs @ ys) = ascii xs @ ascii ys"
  by (simp add: ascii_def)

text \<open>
  Claim C6, as amended. When a file argument is given and the test of the path answers
  \<open>False\<close> (nothing by that name, or not a regular file), \<open>load_latex\<close> raises the
  not-found error at once: the run consists of the one test of the path and the line
  \<open>Error: No such file: <path>\<close> on standard error, and the exit status is 1. When the
  test itself raises, the run ends at the same point with status 1, and the line holds
  the text of that error. In both cases neither the text argument nor standard input is
  looked at.
\<close>

theorem missing_file_fails_first:
  assumes "arg_file a = Some f"
  shows "(is_file w f = Inr False \<longrightarrow>
            load_latex w a =
              ([IsFile f], Inl (FileNotFoundError (ascii ''No such file: '' @ path_str f))) \<and>
            main w a = ([IsFile f, PrintStderr (ascii ''Error: No such file: '' @ path_str f)], 1)) \<and>
         (\<forall>e. is_file w f = Inl e \<longrightarrow>
            load_latex w a = ([IsFile f], Inl e) \<and>
            main w a = ([IsFile f, PrintStderr (ascii ''Error: '' @ exn_str e)], 1))"
proof -
  have m: "ascii ''Error: '' @ ascii ''No such file: '' @ path_str f =
        ascii ''Error: No such file: '' @ path_str f"
    by (simp add: ascii_def)
  have 1: "load_latex w a =
      ([IsFile f], Inl (FileNotFoundError (ascii ''No such file: '' @ path_str f))) \<and>
      main w a = ([IsFile f, PrintStderr (ascii ''Error: No such file: '' @ path_str f)], 1)"
    if "is_file w f = Inr False"
    using assms that m by (simp add: load_latex_def main_def handler_def)
  have 2: "load_latex w a = ([IsFile f], Inl e) \<and>
      main w a = ([IsFile f, PrintStderr (ascii ''Error: '' @ exn_str e)], 1)"
    if "is_file w f = Inl e" for e
    using assms that by (simp add: load_latex_def main_def handler_def)
  from 1 2 show ?thesis by blast
qed

theorem missing_file_fails_first_witness:
  "main \<lparr>is_file = (\<lambda>p. Inr False), read_text = (\<lambda>p. Inr [120]), stdin_read = Inr [121],
         template_path = Path (ascii ''index.html''), named_temporary_file = Inr (Path (ascii ''t.html'')),
         write_text = (\<lambda>p h. None), webbrowser_open = (\<lambda>p. Inr True)\<rparr>
        \<lparr>arg_file = Some (Path (ascii ''a.tex'')), arg_text = Some [122], arg_open = True\<rparr>
   = ([IsFile (Path (ascii ''a.tex'')), PrintStderr (ascii ''Error: No such file: a.tex'')], 1) \<and>
   main \<lparr>is_file = (\<lambda>p. Inl (OSError (ascii ''[Errno 13] Permission denied''))),
         read_text = (\<lambda>p. Inr [120]), stdin_read = Inr [121],
         template_path = Path (ascii ''index.html''), named_temporary_file = Inr (Path (ascii ''t.html'')),
         write_text = (\<lambda>p h. None), webbrowser_open = (\<lambda>p. Inr True)\<rparr>
        \<lparr>arg_file = Some (Path (ascii ''a.tex'')), arg_text = Some [122], arg_open = True\<rparr>
   = ([IsFile (Path (ascii ''a.tex'')), PrintStderr (ascii ''Error: [Errno 13] Permission denied'')], 1)"
proof -
  let ?w = "\<lparr>is_file = (\<lambda>p. Inr False), read_text = (\<lambda>p. Inr [120]), stdin_read = Inr [121],
         template_path = Path (ascii ''index.html''), named_temporary_file = Inr (Path (ascii ''t.html'')),
         write_text = (\<lambda>p h. None), webbrowser_open = (\<lambda>p. Inr True)\<rparr>"
  let ?v = "\<lparr>is_file = (\<lambda>p. Inl (OSError (ascii ''[Errno 13] Permission denied''))),
         read_text = (\<lambda>p. Inr [120]), stdin_read = Inr [121],
         template_path = Path (ascii ''index.html''), named_temporary_file = Inr (Path (ascii ''t.html'')),
         write_text = (\<lambda>p h. None), webbrowser_open = (\<lambda>p. Inr True)\<rparr>"
  let ?a = "\<lparr>arg_file = Some (Path (ascii ''a.tex'')), arg_text = Some [122], arg_open = True\<rparr>"
  have a: "arg_file ?a = Some (Path (ascii ''a.tex''))" by simp
  have 1: "is_file ?w (Path (ascii ''a.tex'')) = Inr False" by simp
  have 2: "is_file ?v (Path (ascii ''a.tex'')) = Inl (OSError (ascii ''[Errno 13] Permission denied''))"
    by simp
  have 3: "ascii ''Error: No such file: '' @ path_str (Path (ascii ''a.tex'')) =
           ascii ''Error: No such file: a.tex''" by (simp add: ascii_def)
  have 4: "ascii ''Error: '' @ exn_str (OSError (ascii ''[Errno 13] Permission denied'')) =
           ascii ''Error: [Errno 13] Permission denied''" by (simp add: ascii_def)
  from missing_file_fails_first [OF a, of ?w] 1
  have "main ?w ?a = ([IsFile (Path (ascii ''a.tex'')),
          PrintStderr (ascii ''Error: No such file: '' @ path_str (Path (ascii ''a.tex'')))], 1)"
    by blast
  moreover from missing_file_fails_first [OF a, of ?v] 2
  have "main ?v ?a = ([IsFile (Path (ascii ''a.tex'')),
          PrintStderr (ascii ''Error: '' @ exn_str (OSError (ascii ''[Errno 13] Permission denied'')))], 1)"
    by blast
  ultimately show ?thesis unfolding 3 4 by blast
qed

text \<open>
  The claim for every path that names no existing regular file fails: for a name of 300
  letters the test of the path raises \<open>OSError\<close> (file name too long), and the line
  printed is that error, not \<open>No such file\<close>.
\<close>

theorem missing_file_fails_first_counterexample:
  "main \<lparr>is_file = (\<lambda>p. Inl (OSError (ascii ''[Errno 36] File name too long: '' @
                                        [39] @ replicate 300 97 @ [39]))),
         read_text = (\<lambda>p. Inr [120]), stdin_read = Inr [121],
         template_path = Path (ascii ''index.html''), named_temporary_file = Inr (Path (ascii ''t.html'')),
         write_text = (\<lambda>p h. None), webbrowser_open = (\<lambda>p. Inr True)\<rparr>
        \<lparr>arg_file = Some (Path (replicate 300 97)), arg_text = None, arg_open = False\<rparr>
   = ([IsFile (Path (replicate 300 97)),
       PrintStderr (ascii ''Error: [Errno 36] File name too long: '' @ [39] @ replicate 300 97 @ [39])], 1) \<and>
   ascii ''Error: [Errno 36] File name too long: '' @ [39] @ replicate 300 97 @ [39] \<noteq>
   ascii ''Error: No such file: '' @ replicate 300 97"
proof -
  have "ascii ''Error: '' @ ascii ''[Errno 36] File name too long: '' @ [39] @ replicate 300 97 @ [39] =
        ascii ''Error: [Errno 36] File name too long: '' @ [39] @ replicate 300 97 @ [39]"
    by (simp add: ascii_def)
  then show ?thesis
    by (simp add: load_latex_def main_def handler_def) (simp add: ascii_def)
qed


text \<open>
  Claim C7, as amended. After the document was written: when the launch of the viewer
  fails by \<open>webbrowser.open\<close> returning \<open>False\<close>, \<open>write_and_open\<close> still returns the
  path, and \<open>main\<close> prints the location and ends with status 0; when the launch raises,
  the exception leaves \<open>write_and_open\<close>, and \<open>main\<close> prints the error and ends with
  status 1 without printing the location.
\<close>

theorem viewer_launch_failure:
  assumes "load_latex w a = (t1, Inr raw_latex)"
    and "is_file w (template_path w) = Inr True"
    and "read_text w (template_path w) = Inr template"
    and "html = build_page_text (normalize_latex raw_latex) template"
    and "named_temporary_file w = Inr p"
    and "write_text w p html = None"
    and "arg_open a"
  shows "(webbrowser_open w p = Inr False \<longrightarrow>
            write_and_open w html (arg_open a) =
              ([NamedTemporaryFile, WriteText p html, WebbrowserOpen p], Inr p) \<and>
            main w a =
              (t1 @ [IsFile (template_path w), ReadText (template_path w), NamedTemporaryFile,
                     WriteText p html, WebbrowserOpen p,
                     PrintStdout (ascii ''Preview written to '' @ path_str p)], 0)) \<and>
         (\<forall>e. webbrowser_open w p = Inl e \<longrightarrow>
            write_and_open w html (arg_open a) =
              ([NamedTemporaryFile, WriteText p html, WebbrowserOpen p], Inl e) \<and>
            main w a =
              (t1 @ [IsFile (template_path w), ReadText (template_path w), NamedTemporaryFile,
                     WriteText p html, WebbrowserOpen p,
                     PrintStderr (ascii ''Error: '' @ exn_str e)], 1))"
proof -
  have 1: "write_and_open w html (arg_open a) =
              ([NamedTemporaryFile, WriteText p html, WebbrowserOpen p], Inr p) \<and>
            main w a =
              (t1 @ [IsFile (template_path w), ReadText (template_path w), NamedTemporaryFile,
                     WriteText p html, WebbrowserOpen p,
                     PrintStdout (ascii ''Preview written to '' @ path_str p)], 0)"
    if "webbrowser_open w p = Inr False"
    using assms that by (simp add: main_def build_page_def write_and_open_def Let_def)
  have 2: "write_and_open w html (arg_open a) =
              ([NamedTemporaryFile, WriteText p html, WebbrowserOpen p], Inl e) \<and>
            main w a =
              (t1 @ [IsFile (template_path w), ReadText (template_path w), NamedTemporaryFile,
                     WriteText p html, WebbrowserOpen p,
                     PrintStderr (ascii ''Error: '' @ exn_str e)], 1)"
    if "webbrowser_open w p = Inl e" for e
    using assms that by (simp add: main_def build_page_def write_and_open_def handler_def Let_def)
  from 1 2 show ?thesis by blast
qed

theorem viewer_launch_failure_witness:
  "main \<lparr>is_file = (\<lambda>p. Inr True), read_text = (\<lambda>p. Inr [120]), stdin_read = Inr [121],
         template_path = Path (ascii ''index.html''), named_temporary_file = Inr (Path (ascii ''t.html'')),
         write_text = (\<lambda>p h. None), webbrowser_open = (\<lambda>p. Inr False)\<rparr>
        \<lparr>arg_file = None, arg_text = Some [122], arg_open = True\<rparr>
   = ([IsFile (Path (ascii ''index.html'')), ReadText (Path (ascii ''index.html'')), NamedTemporaryFile,
       WriteText (Path (ascii ''t.html'')) [120], WebbrowserOpen (Path (ascii ''t.html'')),
       PrintStdout (ascii ''Preview written to t.html'')], 0) \<and>
   main \<lparr>is_file = (\<lambda>p. Inr True), read_text = (\<lambda>p. Inr [120]), stdin_read = Inr [121],
         template_path = Path (ascii ''index.html''), named_temporary_file = Inr (Path (ascii ''t.html'')),
         write_text = (\<lambda>p h. None),
         webbrowser_open = (\<lambda>p. Inl (OtherException (ascii ''list index out of range'')))\<rparr>
        \<lparr>arg_file = None, arg_text = Some [122], arg_open = True\<rparr>
   = ([IsFile (Path (ascii ''index.html'')), ReadText (Path (ascii ''index.html'')), NamedTemporaryFile,
       WriteText (Path (ascii ''t.html'')) [120], WebbrowserOpen (Path (ascii ''t.html'')),
       PrintStderr (ascii ''Error: list index out of range'')], 1)"
proof -
  let ?w = "\<lparr>is_file = (\<lambda>p. Inr True), read_text = (\<lambda>p. Inr [120]), stdin_read = Inr [121],
         template_path = Path (ascii ''index.html''), named_temporary_file = Inr (Path (ascii ''t.html'')),
         write_text = (\<lambda>p h. None), webbrowser_open = (\<lambda>p. Inr False)\<rparr>"
  let ?v = "\<lparr>is_file = (\<lambda>p. Inr True), read_text = (\<lambda>p. Inr [120]), stdin_read = Inr [121],
         template_path = Path (ascii ''index.html''), named_temporary_file = Inr (Path (ascii ''t.html'')),
         write_text = (\<lambda>p h. None),
         webbrowser_open = (\<lambda>p. Inl (OtherException (ascii ''list index out of range'')))\<rparr>"
  let ?a = "\<lparr>arg_file = None, arg_text = Some [122], arg_open = True\<rparr>"
  have h: "build_page_text (normalize_latex [122]) [120] = [120]"
    by (simp add: build_page_text_def PRELOAD_def SAMPLE_def ascii_def)
  have w: "load_latex ?w ?a = ([], Inr [122])"
    "is_file ?w (template_path ?w) = Inr True"
    "read_text ?w (template_path ?w) = Inr [120]"
    "[120] = build_page_text (normalize_latex [122]) [120]"
    "named_temporary_file ?w = Inr (Path (ascii ''t.html''))"
    "write_text ?w (Path (ascii ''t.html'')) [120] = None"
    "arg_open ?a"
    by (simp_all add: load_latex_def h)
  have v: "load_latex ?v ?a = ([], Inr [122])"
    "is_file ?v (template_path ?v) = Inr True"
    "read_text ?v (template_path ?v) = Inr [120]"
    "[120] = build_page_text (normalize_latex [122]) [120]"
    "named_temporary_file ?v = Inr (Path (ascii ''t.html''))"
    "write_text ?v (Path (ascii ''t.html'')) [120] = None"
    "arg_open ?a"
    by (simp_all add: load_latex_def h)
  have wf: "webbrowser_open ?w (Path (ascii ''t.html'')) = Inr False" by simp
  have vf: "webbrowser_open ?v (Path (ascii ''t.html'')) =
              Inl (OtherException (ascii ''list index out of range''))" by simp
  have m1: "ascii ''Preview written to '' @ path_str (Path (ascii ''t.html'')) =
            ascii ''Preview written to t.html''" by (simp add: ascii_def)
  have m2: "ascii ''Error: '' @ exn_str (OtherException (ascii ''list index out of range'')) =
            ascii ''Error: list index out of range''" by (simp add: ascii_def)
  from viewer_launch_failure [OF w] wf
  have "main ?w ?a =
      ([] @ [IsFile (template_path ?w), ReadText (template_path ?w), NamedTemporaryFile,
             WriteText (Path (ascii ''t.html'')) [120], WebbrowserOpen (Path (ascii ''t.html'')),
             PrintStdout (ascii ''Preview written to '' @ path_str (Path (ascii ''t.html'')))], 0)"
    by blast
  moreover from viewer_launch_failure [OF v] vf
  have "main ?v ?a =
      ([] @ [IsFile (template_path ?v), ReadText (template_path ?v), NamedTemporaryFile,
             WriteText (Path (ascii ''t.html'')) [120], WebbrowserOpen (Path (ascii ''t.html'')),
             PrintStderr (ascii ''Error: '' @ exn_str (OtherException (ascii ''list index out of range'')))], 1)"
    by blast
  ultimately show ?thesis unfolding m1 m2 by simp
qed

text \<open>
  The claim for every failure of the launch fails: when \<open>webbrowser.open\<close> raises after
  the document was written, the run prints an error and ends with status 1.
\<close>

theorem viewer_launch_failure_counterexample:
  "main \<lparr>is_file = (\<lambda>p. Inr True), read_text = (\<lambda>p. Inr [120]), stdin_read = Inr [121],
         template_path = Path (ascii ''index.html''), named_temporary_file = Inr (Path (ascii ''t.html'')),
         write_text = (\<lambda>p h. None),
         webbrowser_open = (\<lambda>p. Inl (OtherException (ascii ''list index out of range'')))\<rparr>
        \<lparr>arg_file = None, arg_text = Some [122], arg_open = True\<rparr>
   = ([IsFile (Path (ascii ''index.html'')), ReadText (Path (ascii ''index.html'')), NamedTemporaryFile,
       WriteText (Path (ascii ''t.html'')) [120], WebbrowserOpen (Path (ascii ''t.html'')),
       PrintStderr (ascii ''Error: list index out of range'')], 1)"
proof -
  have h: "build_page_text (normalize_latex [122]) [120] = [120]"
    by (simp add: build_page_text_def PRELOAD_def SAMPLE_def ascii_def)
  show ?thesis
    by (simp add: main_def load_latex_def build_page_def write_and_open_def handler_def h Let_def)
      (simp add: ascii_def)
qed



end
